theory Spec2Isabelle
  imports Main "HOL-Library.Word" "HOL-Library.AList"
begin

section \<open>Data model\<close>

text \<open>
  The block types come from the SDK (\<^verbatim>\<open>types.Block\<close> and friends); the fields the
  storage package reads are kept. \<^verbatim>\<open>int64\<close> is a 64-bit word read as two's complement.
\<close>

type_synonym int64 = "64 word"

record BlockIdentifier =
  Hash :: string
  Index :: int64

record TransactionIdentifier =
  TxHash :: string

record AccountIdentifier =
  Address :: string
  SubAccount :: "string option"

record Amount =
  Value :: string
  Currency :: string

text \<open>A value of \<^verbatim>\<open>map[string]interface{}\<close>: a string, or anything else.\<close>

datatype MetadataValue = MetaString string | MetaOther string

record Operation =
  OperationIndex :: int64
  Type :: string
  Status :: string
  Account :: AccountIdentifier
  Amount :: "Amount option"
  Metadata :: "(string \<times> MetadataValue) list"

record Transaction =
  TransactionIdentifier :: TransactionIdentifier
  Operations :: "Operation list"

record Block =
  BlockIdentifier :: BlockIdentifier
  ParentBlockIdentifier :: BlockIdentifier
  Timestamp :: int64
  Transactions :: "Transaction list"

text \<open>\<^verbatim>\<open>Coin\<close> of coin_storage.go.\<close>

record Coin =
  Identifier :: string
  CoinTransaction :: Transaction
  CoinOperation :: Operation

subsection \<open>Errors\<close>

text \<open>
  The sentinel errors of block_storage.go, \<^verbatim>\<open>fmt.Errorf\<close> without \<^verbatim>\<open>%w\<close>
  (\<open>Errorf\<close>, carrying the format string) and with \<^verbatim>\<open>%w\<close> (\<open>Wrap\<close>, carrying the
  wrapped error and the format string). \<open>ErrDecode\<close> is a failure of \<^verbatim>\<open>decode\<close>,
  \<open>ErrStorage\<close> a failure reported by the storage engine.
\<close>

datatype error =
    ErrHeadBlockNotFound
  | ErrBlockNotFound
  | ErrTransactionNotFound
  | ErrDuplicateBlockHash
  | ErrDuplicateTransactionHash
  | ErrDecode
  | ErrStorage string
  | Errorf string
  | Wrap error string

text \<open>\<^verbatim>\<open>errors.Is\<close>: the target is the error or is reached by unwrapping it.\<close>

fun errors_Is :: "error \<Rightarrow> error \<Rightarrow> bool" where
  "errors_Is (Wrap e msg) target = (Wrap e msg = target \<or> errors_Is e target)"
| "errors_Is e target = (e = target)"

subsection \<open>Keys\<close>

text \<open>\<^verbatim>\<open>%d\<close> of a signed integer.\<close>

definition digit_char :: "nat \<Rightarrow> char" where
  "digit_char d = ''0123456789'' ! d"

function string_of_nat :: "nat \<Rightarrow> string" where
  "string_of_nat n =
     (if n < 10 then [digit_char n] else string_of_nat (n div 10) @ [digit_char (n mod 10)])"
  by pat_completeness auto
termination
  by (relation "measure id") auto

declare string_of_nat.simps [simp del]

definition string_of_int :: "int \<Rightarrow> string" where
  "string_of_int i = (if i < 0 then CHR ''-'' # string_of_nat (nat (- i)) else string_of_nat (nat i))"

definition headBlockKey :: string where
  "headBlockKey = ''head-block''"

definition blockNamespace :: string where
  "blockNamespace = ''block''"

definition blockHashNamespace :: string where
  "blockHashNamespace = ''block-hash''"

definition transactionHashNamespace :: string where
  "transactionHashNamespace = ''transaction-hash''"

definition getHeadBlockKey :: string where
  "getHeadBlockKey = headBlockKey"

definition getBlockKey :: "BlockIdentifier \<Rightarrow> string" where
  "getBlockKey blockIdentifier =
     blockNamespace @ ''/'' @ Hash blockIdentifier @ ''/'' @ string_of_int (sint (Index blockIdentifier))"

definition getBlockHashKey :: "BlockIdentifier \<Rightarrow> string" where
  "getBlockHashKey blockIdentifier = blockHashNamespace @ ''/'' @ Hash blockIdentifier"

definition getTransactionHashKey :: "TransactionIdentifier \<Rightarrow> string" where
  "getTransactionHashKey transactionIdentifier =
     transactionHashNamespace @ ''/'' @ TxHash transactionIdentifier"

subsection \<open>Codec and key-value store\<close>

text \<open>
  Modelled from the spec: the codec (\<^verbatim>\<open>encode\<close>, \<^verbatim>\<open>decode\<close>) is not among the sources.
  The spec asks for a deterministic encoding that round-trips exactly, so an encoded value
  is the value tagged with its type, and decoding into another type fails.
  A Go \<^verbatim>\<open>map[string]int64\<close> is an association list handled with the \<open>AList\<close> operations
  (its order stands for the map's iteration order), a \<^verbatim>\<open>map[string]struct{}\<close> a list of
  its keys.
\<close>

datatype stored =
    EncEmpty
  | EncBlockIdentifier BlockIdentifier
  | EncBlock Block
  | EncBlocks "(string \<times> int64) list"
  | EncCoin Coin
  | EncCoins "string list"

fun decode_BlockIdentifier :: "stored \<Rightarrow> error + BlockIdentifier" where
  "decode_BlockIdentifier (EncBlockIdentifier i) = Inr i"
| "decode_BlockIdentifier _ = Inl ErrDecode"

fun decode_Block :: "stored \<Rightarrow> error + Block" where
  "decode_Block (EncBlock b) = Inr b"
| "decode_Block _ = Inl ErrDecode"

fun decode_Blocks :: "stored \<Rightarrow> error + (string \<times> int64) list" where
  "decode_Blocks (EncBlocks m) = Inr m"
| "decode_Blocks _ = Inl ErrDecode"

fun decode_Coin :: "stored \<Rightarrow> error + Coin" where
  "decode_Coin (EncCoin c) = Inr c"
| "decode_Coin _ = Inl ErrDecode"

fun decode_Coins :: "stored \<Rightarrow> error + string list" where
  "decode_Coins (EncCoins c) = Inr c"
| "decode_Coins _ = Inl ErrDecode"

text \<open>
  Modelled from the spec: the storage engine (\<^verbatim>\<open>Database\<close>, \<^verbatim>\<open>DatabaseTransaction\<close>) is
  not among the sources. The spec gives a transaction that reads its own writes, persists
  nothing unless \<^verbatim>\<open>Commit\<close> succeeds and has no effect when discarded: the database is a
  map from keys to stored values, a transaction is a working copy of it, \<^verbatim>\<open>Commit\<close>
  replaces the database by the copy, and returning without \<^verbatim>\<open>Commit\<close> leaves the database
  as it was. \<^verbatim>\<open>Get\<close>, \<^verbatim>\<open>Set\<close> and \<^verbatim>\<open>Delete\<close> do not fail on this store; whether a
  \<^verbatim>\<open>Commit\<close> fails is decided by the engine (\<open>commitFault\<close> below).
\<close>

type_synonym kv = "string \<rightharpoonup> stored"

definition txn_Get :: "kv \<Rightarrow> string \<Rightarrow> stored option" where
  "txn_Get txn key = txn key"

definition txn_Set :: "kv \<Rightarrow> string \<Rightarrow> stored \<Rightarrow> kv" where
  "txn_Set txn key val = txn(key \<mapsto> val)"

definition txn_Delete :: "kv \<Rightarrow> string \<Rightarrow> kv" where
  "txn_Delete txn key = txn(key := None)"

section \<open>Block storage\<close>

text \<open>
  A \<^verbatim>\<open>CommitWorker\<close> is a closure with effects outside the database: a function on a
  state \<open>'w\<close> of the outside world that may return an error. A \<^verbatim>\<open>BlockWorker\<close> stages
  writes in the transaction it is given and may return a \<^verbatim>\<open>CommitWorker\<close> (\<open>None\<close> is
  Go's \<^verbatim>\<open>nil\<close>).
\<close>

type_synonym 'w CommitWorker = "'w \<Rightarrow> error option \<times> 'w"

record 'w BlockWorker =
  AddingBlock :: "Block \<Rightarrow> kv \<Rightarrow> error + (kv \<times> 'w CommitWorker option)"
  RemovingBlock :: "Block \<Rightarrow> kv \<Rightarrow> error + (kv \<times> 'w CommitWorker option)"

text \<open>
  \<^verbatim>\<open>BlockStorage\<close>: the registered workers, and the engine's answer to \<^verbatim>\<open>Commit\<close> of a
  transaction with the given contents (\<open>None\<close>: committed).
\<close>

record 'w BlockStorage =
  workers :: "'w BlockWorker list"
  commitFault :: "kv \<Rightarrow> error option"

definition GetHeadBlockIdentifier :: "kv \<Rightarrow> error + BlockIdentifier" where
  "GetHeadBlockIdentifier db =
     (case txn_Get db getHeadBlockKey of
        None \<Rightarrow> Inl ErrHeadBlockNotFound
      | Some block \<Rightarrow> decode_BlockIdentifier block)"

definition StoreHeadBlockIdentifier :: "kv \<Rightarrow> BlockIdentifier \<Rightarrow> kv" where
  "StoreHeadBlockIdentifier transaction blockIdentifier =
     txn_Set transaction getHeadBlockKey (EncBlockIdentifier blockIdentifier)"

definition GetBlock :: "kv \<Rightarrow> BlockIdentifier \<Rightarrow> error + Block" where
  "GetBlock db blockIdentifier =
     (case txn_Get db (getBlockKey blockIdentifier) of
        None \<Rightarrow> Inl (Wrap ErrBlockNotFound ''%w %+v'')
      | Some block \<Rightarrow> decode_Block block)"

definition storeBlockHash :: "kv \<Rightarrow> BlockIdentifier \<Rightarrow> error + kv" where
  "storeBlockHash transaction block =
     (let hashKey = getBlockHashKey block in
      case txn_Get transaction hashKey of
        Some _ \<Rightarrow> Inl (Wrap ErrDuplicateBlockHash ''%w: duplicate block hash %s found'')
      | None \<Rightarrow> Inr (txn_Set transaction hashKey EncEmpty))"

definition storeTransactionHash ::
  "kv \<Rightarrow> BlockIdentifier \<Rightarrow> TransactionIdentifier \<Rightarrow> error + kv" where
  "storeTransactionHash transaction blockIdentifier transactionIdentifier =
     (let hashKey = getTransactionHashKey transactionIdentifier in
      case txn_Get transaction hashKey of
        None \<Rightarrow>
          Inr (txn_Set transaction hashKey
                 (EncBlocks (AList.update (Hash blockIdentifier) (Index blockIdentifier) [])))
      | Some val \<Rightarrow>
          (case decode_Blocks val of
             Inl err \<Rightarrow> Inl (Wrap err ''%w: could not decode transaction hash contents'')
           | Inr blocks \<Rightarrow>
               if map_of blocks (Hash blockIdentifier) \<noteq> None
               then Inl (Wrap ErrDuplicateTransactionHash
                           ''%w: duplicate transaction %s found in block %s:%d'')
               else Inr (txn_Set transaction hashKey
                           (EncBlocks (AList.update (Hash blockIdentifier)
                                         (Index blockIdentifier) blocks)))))"

definition removeTransactionHash ::
  "kv \<Rightarrow> BlockIdentifier \<Rightarrow> TransactionIdentifier \<Rightarrow> error + kv" where
  "removeTransactionHash transaction blockIdentifier transactionIdentifier =
     (let hashKey = getTransactionHashKey transactionIdentifier in
      case txn_Get transaction hashKey of
        None \<Rightarrow> Inl (Errorf ''could not remove transaction %s'')
      | Some val \<Rightarrow>
          (case decode_Blocks val of
             Inl err \<Rightarrow> Inl (Wrap err ''%w: could not decode transaction hash contents'')
           | Inr blocks \<Rightarrow>
               if map_of blocks (Hash blockIdentifier) = None
               then Inl (Errorf ''saved blocks at transaction does not contain %s'')
               else (let blocks' = AList.delete (Hash blockIdentifier) blocks in
                     if length blocks' = 0
                     then Inr (txn_Delete transaction hashKey)
                     else Inr (txn_Set transaction hashKey (EncBlocks blocks')))))"

text \<open>The loop of \<^verbatim>\<open>AddBlock\<close> over the block's transactions.\<close>

fun storeTransactionHashes :: "kv \<Rightarrow> BlockIdentifier \<Rightarrow> Transaction list \<Rightarrow> error + kv" where
  "storeTransactionHashes transaction blockIdentifier [] = Inr transaction"
| "storeTransactionHashes transaction blockIdentifier (txn # txns) =
     (case storeTransactionHash transaction blockIdentifier (TransactionIdentifier txn) of
        Inl err \<Rightarrow> Inl (Wrap err ''%w: unable to store transaction hash'')
      | Inr transaction' \<Rightarrow> storeTransactionHashes transaction' blockIdentifier txns)"

text \<open>The loop of \<^verbatim>\<open>RemoveBlock\<close> over the block's transactions.\<close>

fun removeTransactionHashes :: "kv \<Rightarrow> BlockIdentifier \<Rightarrow> Transaction list \<Rightarrow> error + kv" where
  "removeTransactionHashes transaction blockIdentifier [] = Inr transaction"
| "removeTransactionHashes transaction blockIdentifier (txn # txns) =
     (case removeTransactionHash transaction blockIdentifier (TransactionIdentifier txn) of
        Inl err \<Rightarrow> Inl err
      | Inr transaction' \<Rightarrow> removeTransactionHashes transaction' blockIdentifier txns)"

text \<open>
  The first loop of \<^verbatim>\<open>callWorkersAndCommit\<close>: each worker in registration order, on the
  transaction as the workers before it left it; the first error ends the loop.
\<close>

fun callWorkers ::
  "'w BlockWorker list \<Rightarrow> bool \<Rightarrow> Block \<Rightarrow> kv \<Rightarrow> error + (kv \<times> 'w CommitWorker option list)" where
  "callWorkers [] adding block txn = Inr (txn, [])"
| "callWorkers (w # ws) adding block txn =
     (case (if adding then AddingBlock w block txn else RemovingBlock w block txn) of
        Inl err \<Rightarrow> Inl err
      | Inr (txn', cw) \<Rightarrow>
          (case callWorkers ws adding block txn' of
             Inl err \<Rightarrow> Inl err
           | Inr (txn'', cws) \<Rightarrow> Inr (txn'', cw # cws)))"

text \<open>The second loop: \<^verbatim>\<open>nil\<close> entries are skipped, the first error ends the loop.\<close>

fun runCommitWorkers :: "'w CommitWorker option list \<Rightarrow> 'w \<Rightarrow> error option \<times> 'w" where
  "runCommitWorkers [] world = (None, world)"
| "runCommitWorkers (None # cws) world = runCommitWorkers cws world"
| "runCommitWorkers (Some cw # cws) world =
     (case cw world of
        (Some err, world') \<Rightarrow> (Some err, world')
      | (None, world') \<Rightarrow> runCommitWorkers cws world')"

text \<open>
  The mutating operations take the database and the outside world and return the error
  (\<open>None\<close> is \<^verbatim>\<open>nil\<close>) with the database and the world as the call leaves them.
\<close>

definition callWorkersAndCommit ::
  "'w BlockStorage \<Rightarrow> Block \<Rightarrow> kv \<Rightarrow> bool \<Rightarrow> kv \<times> 'w \<Rightarrow> error option \<times> kv \<times> 'w" where
  "callWorkersAndCommit b block txn adding st =
     (case st of (db, world) \<Rightarrow>
        (case callWorkers (workers b) adding block txn of
           Inl err \<Rightarrow> (Some err, db, world)
         | Inr (txn', commitWorkers) \<Rightarrow>
             (case commitFault b txn' of
                Some err \<Rightarrow> (Some err, db, world)
              | None \<Rightarrow>
                  (case runCommitWorkers commitWorkers world of
                     (r, world') \<Rightarrow> (r, txn', world')))))"

definition AddBlock :: "'w BlockStorage \<Rightarrow> Block \<Rightarrow> kv \<times> 'w \<Rightarrow> error option \<times> kv \<times> 'w" where
  "AddBlock b block st =
     (case st of (db, world) \<Rightarrow>
        (let transaction = txn_Set db (getBlockKey (BlockIdentifier block)) (EncBlock block);
             transaction = StoreHeadBlockIdentifier transaction (BlockIdentifier block)
         in case storeBlockHash transaction (BlockIdentifier block) of
              Inl err \<Rightarrow> (Some (Wrap err ''%w: unable to store block hash''), db, world)
            | Inr transaction \<Rightarrow>
                (case storeTransactionHashes transaction (BlockIdentifier block)
                        (Transactions block) of
                   Inl err \<Rightarrow> (Some err, db, world)
                 | Inr transaction \<Rightarrow> callWorkersAndCommit b block transaction True st)))"

definition RemoveBlock ::
  "'w BlockStorage \<Rightarrow> BlockIdentifier \<Rightarrow> kv \<times> 'w \<Rightarrow> error option \<times> kv \<times> 'w" where
  "RemoveBlock b blockIdentifier st =
     (case st of (db, world) \<Rightarrow>
        (case GetBlock db blockIdentifier of
           Inl err \<Rightarrow> (Some err, db, world)
         | Inr block \<Rightarrow>
             (case removeTransactionHashes db blockIdentifier (Transactions block) of
                Inl err \<Rightarrow> (Some err, db, world)
              | Inr transaction \<Rightarrow>
                  (let transaction = txn_Delete transaction (getBlockHashKey blockIdentifier);
                       transaction = txn_Delete transaction (getBlockKey blockIdentifier);
                       transaction =
                         StoreHeadBlockIdentifier transaction (ParentBlockIdentifier block)
                   in callWorkersAndCommit b block transaction False st))))"

text \<open>
  \<^verbatim>\<open>FindTransaction\<close> returns Go's triple: the identifiers (\<open>None\<close> is the \<^verbatim>\<open>nil\<close>
  slice), the depth and the error. The loop over the decoded map visits its entries in the
  order of the association list.
\<close>

definition MaxInt64 :: int64 where
  "MaxInt64 = 0x7FFFFFFFFFFFFFFF"

fun findTransactionLoop ::
  "(string \<times> int64) list \<Rightarrow> BlockIdentifier list \<times> int64 \<Rightarrow> BlockIdentifier list \<times> int64" where
  "findTransactionLoop [] (ids, oldestBlock) = (ids, oldestBlock)"
| "findTransactionLoop ((hash, index) # blocks) (ids, oldestBlock) =
     findTransactionLoop blocks
       (ids @ [\<lparr>Hash = hash, Index = index\<rparr>],
        if index <s oldestBlock then index else oldestBlock)"

definition FindTransaction ::
  "kv \<Rightarrow> TransactionIdentifier \<Rightarrow> BlockIdentifier list option \<times> int64 \<times> error option" where
  "FindTransaction db transactionIdentifier =
     (case txn_Get db (getTransactionHashKey transactionIdentifier) of
        None \<Rightarrow> (None, - 1, None)
      | Some tx \<Rightarrow>
          (case decode_Blocks tx of
             Inl err \<Rightarrow>
               (None, - 1, Some (Wrap err ''%w: unable to decode block data for transaction''))
           | Inr blocks \<Rightarrow>
               (case txn_Get db getHeadBlockKey of
                  None \<Rightarrow> (None, - 1, Some ErrHeadBlockNotFound)
                | Some block \<Rightarrow>
                    (case decode_BlockIdentifier block of
                       Inl err \<Rightarrow> (None, - 1, Some (Wrap err ''%w: could not decode head block''))
                     | Inr head \<Rightarrow>
                         (case findTransactionLoop blocks ([], MaxInt64) of
                            (ids, oldestBlock) \<Rightarrow>
                              (Some ids, Index head - oldestBlock, None))))))"

text \<open>
  The loop of \<^verbatim>\<open>SetNewStartIndex\<close>. Nothing in the code bounds it (a worker may write any
  key while a block is removed), so a run that does not end is the value \<open>None\<close>.
\<close>

partial_function (option) setNewStartIndexLoop ::
  "'w BlockStorage \<Rightarrow> int64 \<Rightarrow> BlockIdentifier \<Rightarrow> kv \<times> 'w \<Rightarrow> (error option \<times> kv \<times> 'w) option" where
  "setNewStartIndexLoop b startIndex currBlock st =
     (if startIndex \<le>s Index currBlock
      then (case GetBlock (fst st) currBlock of
              Inl err \<Rightarrow> Some (Some err, st)
            | Inr block \<Rightarrow>
                (case RemoveBlock b (BlockIdentifier block) st of
                   (Some err, st') \<Rightarrow> Some (Some err, st')
                 | (None, st') \<Rightarrow>
                     setNewStartIndexLoop b startIndex (ParentBlockIdentifier block) st'))
      else Some (None, st))"

definition SetNewStartIndex ::
  "'w BlockStorage \<Rightarrow> int64 \<Rightarrow> kv \<times> 'w \<Rightarrow> (error option \<times> kv \<times> 'w) option" where
  "SetNewStartIndex b startIndex st =
     (case GetHeadBlockIdentifier (fst st) of
        Inl err \<Rightarrow> if errors_Is err ErrHeadBlockNotFound then Some (None, st) else Some (Some err, st)
      | Inr head \<Rightarrow>
          if Index head <s startIndex
          then Some (Some (Errorf ''last processed block %d is less than start index %d''), st)
          else setNewStartIndexLoop b startIndex head st)"




section \<open>Coin storage\<close>

definition coinNamespace :: string where
  "coinNamespace = ''coinNamespace''"

definition coinAccountNamespace :: string where
  "coinAccountNamespace = ''coinAccountNamespace''"

definition coinCreated :: string where
  "coinCreated = ''utxo_created''"

definition coinSpent :: string where
  "coinSpent = ''utxo_spent''"

text \<open>
  \<^verbatim>\<open>CoinStorage\<close>: the asserter's \<^verbatim>\<open>OperationSuccessful\<close> and the SDK's \<^verbatim>\<open>types.Hash\<close>
  on account identifiers are not part of this repository and are fields of the record.
\<close>

record CoinStorage =
  OperationSuccessful :: "Operation \<Rightarrow> error + bool"
  types_Hash :: "AccountIdentifier \<Rightarrow> string"

definition getCoinKey :: "string \<Rightarrow> string" where
  "getCoinKey identifier = coinNamespace @ ''/'' @ identifier"

definition getCoinAccountKey :: "CoinStorage \<Rightarrow> AccountIdentifier \<Rightarrow> string" where
  "getCoinAccountKey c accountIdentifier =
     coinAccountNamespace @ ''/'' @ types_Hash c accountIdentifier"

text \<open>\<^verbatim>\<open>(exists, coin, err)\<close>: \<open>Inr None\<close> is \<^verbatim>\<open>(false, nil, nil)\<close>.\<close>

definition getAndDecodeCoin :: "kv \<Rightarrow> string \<Rightarrow> error + Coin option" where
  "getAndDecodeCoin transaction coinIdentifier =
     (case txn_Get transaction (getCoinKey coinIdentifier) of
        None \<Rightarrow> Inr None
      | Some val \<Rightarrow>
          (case decode_Coin val of
             Inl err \<Rightarrow> Inl (Wrap err ''%w: unable to decode coin'')
           | Inr coin \<Rightarrow> Inr (Some coin)))"

text \<open>\<^verbatim>\<open>(accountExists, coins, err)\<close>: \<open>Inr None\<close> is \<^verbatim>\<open>(false, nil, nil)\<close>.\<close>

definition getAndDecodeCoins ::
  "CoinStorage \<Rightarrow> kv \<Rightarrow> AccountIdentifier \<Rightarrow> error + string list option" where
  "getAndDecodeCoins c transaction accountIdentifier =
     (case txn_Get transaction (getCoinAccountKey c accountIdentifier) of
        None \<Rightarrow> Inr None
      | Some val \<Rightarrow>
          (case decode_Coins val of
             Inl err \<Rightarrow> Inl (Wrap err ''%w: unable to decode coin account'')
           | Inr coins \<Rightarrow> Inr (Some coins)))"

definition encodeAndSetCoins ::
  "CoinStorage \<Rightarrow> kv \<Rightarrow> AccountIdentifier \<Rightarrow> string list \<Rightarrow> kv" where
  "encodeAndSetCoins c transaction accountIdentifier coins =
     txn_Set transaction (getCoinAccountKey c accountIdentifier) (EncCoins coins)"

definition tryAddingCoin ::
  "CoinStorage \<Rightarrow> kv \<Rightarrow> Transaction \<Rightarrow> Operation \<Rightarrow> string \<Rightarrow> error + kv" where
  "tryAddingCoin c transaction blockTransaction operation identiferKey =
     (case map_of (Metadata operation) identiferKey of
        None \<Rightarrow> Inr transaction
      | Some (MetaOther rawIdentifier) \<Rightarrow> Inl (Errorf ''unable to parse created coin %v'')
      | Some (MetaString coinIdentifier) \<Rightarrow>
          (let newCoin = \<lparr>Identifier = coinIdentifier, CoinTransaction = blockTransaction,
                          CoinOperation = operation\<rparr>;
               transaction = txn_Set transaction (getCoinKey coinIdentifier) (EncCoin newCoin)
           in case getAndDecodeCoins c transaction (Account operation) of
                Inl err \<Rightarrow> Inl (Wrap err ''%w: unable to query coin account'')
              | Inr found \<Rightarrow>
                  (let coins = (case found of None \<Rightarrow> [] | Some coins \<Rightarrow> coins) in
                   if coinIdentifier \<in> set coins
                   then Inl (Errorf ''coin %s already exists in account %s'')
                   else Inr (encodeAndSetCoins c transaction (Account operation)
                               (coins @ [coinIdentifier])))))"

definition tryRemovingCoin ::
  "CoinStorage \<Rightarrow> kv \<Rightarrow> Operation \<Rightarrow> string \<Rightarrow> error + kv" where
  "tryRemovingCoin c transaction operation identiferKey =
     (case map_of (Metadata operation) identiferKey of
        None \<Rightarrow> Inr transaction
      | Some (MetaOther rawIdentifier) \<Rightarrow> Inl (Errorf ''unable to parse spent coin %v'')
      | Some (MetaString coinIdentifier) \<Rightarrow>
          (case txn_Get transaction (getCoinKey coinIdentifier) of
             None \<Rightarrow> Inr transaction
           | Some _ \<Rightarrow>
               (let transaction = txn_Delete transaction (getCoinKey coinIdentifier) in
                case getAndDecodeCoins c transaction (Account operation) of
                  Inl err \<Rightarrow> Inl (Wrap err ''%w: unable to query coin account'')
                | Inr None \<Rightarrow> Inl (Errorf ''%w: unable to find owner of coin'')
                | Inr (Some coins) \<Rightarrow>
                    if coinIdentifier \<notin> set coins
                    then Inl (Errorf ''unable to find coin %s in account %s'')
                    else Inr (encodeAndSetCoins c transaction (Account operation)
                                (removeAll coinIdentifier coins)))))"

text \<open>
  The body of the inner loop of \<^verbatim>\<open>AddingBlock\<close> and \<^verbatim>\<open>RemovingBlock\<close>: \<open>createdKey\<close>
  is the metadata key whose coin is added, \<open>spentKey\<close> the one whose coin is removed.
\<close>

definition coinOperation ::
  "CoinStorage \<Rightarrow> string \<Rightarrow> string \<Rightarrow> Transaction \<Rightarrow> kv \<Rightarrow> Operation \<Rightarrow> error + kv" where
  "coinOperation c createdKey spentKey txn transaction operation =
     (case OperationSuccessful c operation of
        Inl err \<Rightarrow> Inl (Wrap err ''%w: unable to parse operation success'')
      | Inr success \<Rightarrow>
          if \<not> success then Inr transaction
          else if Amount operation = None then Inr transaction
          else (case tryAddingCoin c transaction txn operation createdKey of
                  Inl err \<Rightarrow> Inl (Wrap err ''%w: unable to add coin'')
                | Inr transaction \<Rightarrow>
                    (case tryRemovingCoin c transaction operation spentKey of
                       Inl err \<Rightarrow> Inl (Wrap err ''%w: unable to remove coin'')
                     | Inr transaction \<Rightarrow> Inr transaction)))"

fun coinOperations ::
  "CoinStorage \<Rightarrow> string \<Rightarrow> string \<Rightarrow> Transaction \<Rightarrow> kv \<Rightarrow> Operation list \<Rightarrow> error + kv" where
  "coinOperations c createdKey spentKey txn transaction [] = Inr transaction"
| "coinOperations c createdKey spentKey txn transaction (operation # operations) =
     (case coinOperation c createdKey spentKey txn transaction operation of
        Inl err \<Rightarrow> Inl err
      | Inr transaction' \<Rightarrow> coinOperations c createdKey spentKey txn transaction' operations)"

fun coinTransactions ::
  "CoinStorage \<Rightarrow> string \<Rightarrow> string \<Rightarrow> kv \<Rightarrow> Transaction list \<Rightarrow> error + kv" where
  "coinTransactions c createdKey spentKey transaction [] = Inr transaction"
| "coinTransactions c createdKey spentKey transaction (txn # txns) =
     (case coinOperations c createdKey spentKey txn transaction (Operations txn) of
        Inl err \<Rightarrow> Inl err
      | Inr transaction' \<Rightarrow> coinTransactions c createdKey spentKey transaction' txns)"

definition CoinStorage_AddingBlock ::
  "CoinStorage \<Rightarrow> Block \<Rightarrow> kv \<Rightarrow> error + (kv \<times> 'w CommitWorker option)" where
  "CoinStorage_AddingBlock c block transaction =
     (case coinTransactions c coinCreated coinSpent transaction (Transactions block) of
        Inl err \<Rightarrow> Inl err
      | Inr transaction' \<Rightarrow> Inr (transaction', None))"

definition CoinStorage_RemovingBlock ::
  "CoinStorage \<Rightarrow> Block \<Rightarrow> kv \<Rightarrow> error + (kv \<times> 'w CommitWorker option)" where
  "CoinStorage_RemovingBlock c block transaction =
     (case coinTransactions c coinSpent coinCreated transaction (Transactions block) of
        Inl err \<Rightarrow> Inl err
      | Inr transaction' \<Rightarrow> Inr (transaction', None))"

text \<open>\<^verbatim>\<open>var _ BlockWorker = (*CoinStorage)(nil)\<close>: the coin storage as a block worker.\<close>

definition CoinStorage_worker :: "CoinStorage \<Rightarrow> 'w BlockWorker" where
  "CoinStorage_worker c =
     \<lparr>AddingBlock = CoinStorage_AddingBlock c, RemovingBlock = CoinStorage_RemovingBlock c\<rparr>"

fun getCoinsLoop :: "kv \<Rightarrow> string list \<Rightarrow> Coin list \<Rightarrow> error + Coin list" where
  "getCoinsLoop transaction [] coinArr = Inr coinArr"
| "getCoinsLoop transaction (coinIdentifier # coins) coinArr =
     (case getAndDecodeCoin transaction coinIdentifier of
        Inl err \<Rightarrow> Inl (Wrap err ''%w: unable to query coin'')
      | Inr None \<Rightarrow> Inl (Errorf ''%w: unable to get coin %s'')
      | Inr (Some coin) \<Rightarrow> getCoinsLoop transaction coins (coinArr @ [coin]))"

definition GetCoins :: "CoinStorage \<Rightarrow> kv \<Rightarrow> AccountIdentifier \<Rightarrow> error + Coin list" where
  "GetCoins c db accountIdentifier =
     (case getAndDecodeCoins c db accountIdentifier of
        Inl err \<Rightarrow> Inl (Wrap err ''%w: unable to query account identifier'')
      | Inr None \<Rightarrow> Inr []
      | Inr (Some coins) \<Rightarrow> getCoinsLoop db coins [])"

section \<open>Notions used to state the properties\<close>

text \<open>
  The transaction as \<open>AddBlock\<close> has staged it when it reaches the workers (the block
  record, the head, the block-hash marker and the reverse-index entries), or the error that
  ends the call before.
\<close>

definition AddBlock_staged :: "kv \<Rightarrow> Block \<Rightarrow> error + kv" where
  "AddBlock_staged db block =
     (case storeBlockHash
             (StoreHeadBlockIdentifier
                (txn_Set db (getBlockKey (BlockIdentifier block)) (EncBlock block))
                (BlockIdentifier block))
             (BlockIdentifier block) of
        Inl err \<Rightarrow> Inl (Wrap err ''%w: unable to store block hash'')
      | Inr transaction \<Rightarrow>
          storeTransactionHashes transaction (BlockIdentifier block) (Transactions block))"

text \<open>The same for \<open>RemoveBlock\<close>, with the block it loaded.\<close>

definition RemoveBlock_staged :: "kv \<Rightarrow> BlockIdentifier \<Rightarrow> error + (Block \<times> kv)" where
  "RemoveBlock_staged db blockIdentifier =
     (case GetBlock db blockIdentifier of
        Inl err \<Rightarrow> Inl err
      | Inr block \<Rightarrow>
          (case removeTransactionHashes db blockIdentifier (Transactions block) of
             Inl err \<Rightarrow> Inl err
           | Inr transaction \<Rightarrow>
               Inr (block,
                    StoreHeadBlockIdentifier
                      (txn_Delete (txn_Delete transaction (getBlockHashKey blockIdentifier))
                         (getBlockKey blockIdentifier))
                      (ParentBlockIdentifier block))))"

text \<open>
  The callbacks as the spec words them: the non-null ones, each invoked in order, the
  first error ending the run.
\<close>

definition nonNull :: "'a option list \<Rightarrow> 'a list" where
  "nonNull cws = map the (filter (\<lambda>cw. cw \<noteq> None) cws)"

fun invokeInOrder :: "'w CommitWorker list \<Rightarrow> 'w \<Rightarrow> error option \<times> 'w" where
  "invokeInOrder [] world = (None, world)"
| "invokeInOrder (cw # cws) world =
     (case cw world of
        (Some err, world') \<Rightarrow> (Some err, world')
      | (None, world') \<Rightarrow> invokeInOrder cws world')"

text \<open>The reverse-index mapping a transaction holds under a key (empty when there is none).\<close>

definition blocksAt :: "kv \<Rightarrow> string \<Rightarrow> (string \<times> int64) list" where
  "blocksAt txn key = (case txn key of Some (EncBlocks blocks) \<Rightarrow> blocks | _ \<Rightarrow> [])"

text \<open>A key holds nothing or a reverse-index mapping.\<close>

definition holdsBlocks :: "kv \<Rightarrow> string \<Rightarrow> bool" where
  "holdsBlocks txn key = (case txn key of None \<Rightarrow> True | Some (EncBlocks blocks) \<Rightarrow> True | _ \<Rightarrow> False)"

text \<open>
  Two transactions agree on the block index: on the block records, the block-hash markers
  and the reverse index.
\<close>

definition sameBlockIndex :: "kv \<Rightarrow> kv \<Rightarrow> bool" where
  "sameBlockIndex a b \<longleftrightarrow>
     (\<forall>blockIdentifier.
        a (getBlockKey blockIdentifier) = b (getBlockKey blockIdentifier)
        \<and> a (getBlockHashKey blockIdentifier) = b (getBlockHashKey blockIdentifier))
     \<and> (\<forall>transactionIdentifier.
           a (getTransactionHashKey transactionIdentifier)
             = b (getTransactionHashKey transactionIdentifier))"

text \<open>
  A worker keeps the block index when its \<open>AddingBlock\<close> and \<open>RemovingBlock\<close> leave
  the block index as they find it.
\<close>

definition keepsBlockIndex :: "'w BlockWorker \<Rightarrow> bool" where
  "keepsBlockIndex w \<longleftrightarrow>
     (\<forall>block txn txn' cw.
        AddingBlock w block txn = Inr (txn', cw) \<or> RemovingBlock w block txn = Inr (txn', cw) \<longrightarrow>
        sameBlockIndex txn' txn)"

text \<open>A worker keeps the head when both leave the head-block key as they find it.\<close>

definition keepsHeadBlock :: "'w BlockWorker \<Rightarrow> bool" where
  "keepsHeadBlock w \<longleftrightarrow>
     (\<forall>block txn txn' cw.
        AddingBlock w block txn = Inr (txn', cw) \<or> RemovingBlock w block txn = Inr (txn', cw) \<longrightarrow>
        txn' getHeadBlockKey = txn getHeadBlockKey)"

text \<open>
  The databases that \<open>AddBlock\<close> and \<open>RemoveBlock\<close> produce from the empty one (a call that
  fails leaves the database as it is).
\<close>

inductive reachable :: "'w BlockStorage \<Rightarrow> kv \<Rightarrow> bool" for b :: "'w BlockStorage" where
  reachable_empty: "reachable b Map.empty"
| reachable_AddBlock:
    "reachable b db \<Longrightarrow> AddBlock b block (db, world) = (r, db', world') \<Longrightarrow> reachable b db'"
| reachable_RemoveBlock:
    "reachable b db \<Longrightarrow> RemoveBlock b blockIdentifier (db, world) = (r, db', world') \<Longrightarrow>
     reachable b db'"


text \<open>
  The databases that \<open>AddBlock\<close> of accepted blocks and \<open>RemoveBlock\<close> produce from
  the empty one.
\<close>

inductive reachableWith :: "(Block \<Rightarrow> bool) \<Rightarrow> 'w BlockStorage \<Rightarrow> kv \<Rightarrow> bool"
  for accepted :: "Block \<Rightarrow> bool" and b :: "'w BlockStorage" where
  reachableWith_empty: "reachableWith accepted b Map.empty"
| reachableWith_AddBlock:
    "reachableWith accepted b db \<Longrightarrow> accepted block \<Longrightarrow>
     AddBlock b block (db, world) = (r, db', world') \<Longrightarrow> reachableWith accepted b db'"
| reachableWith_RemoveBlock:
    "reachableWith accepted b db \<Longrightarrow>
     RemoveBlock b blockIdentifier (db, world) = (r, db', world') \<Longrightarrow>
     reachableWith accepted b db'"

text \<open>
  What holds of every such database: a stored block has its block-hash marker, is stored
  under its own identifier and is the only stored block of its hash, and no stored
  reverse-index mapping is empty.
\<close>

definition blockIndexInvariant :: "kv \<Rightarrow> bool" where
  "blockIndexInvariant db \<longleftrightarrow>
     (\<forall>blockIdentifier. db (getBlockKey blockIdentifier) \<noteq> None \<longrightarrow>
        db (getBlockHashKey blockIdentifier) \<noteq> None
        \<and> (\<exists>block. db (getBlockKey blockIdentifier) = Some (EncBlock block)
              \<and> BlockIdentifier block = blockIdentifier))
     \<and> (\<forall>blockIdentifier blockIdentifier'.
           db (getBlockKey blockIdentifier) \<noteq> None \<and> db (getBlockKey blockIdentifier') \<noteq> None
           \<and> Hash blockIdentifier = Hash blockIdentifier' \<longrightarrow> blockIdentifier = blockIdentifier')
     \<and> (\<forall>transactionIdentifier.
           db (getTransactionHashKey transactionIdentifier) \<noteq> Some (EncBlocks []))"

text \<open>
  A run of the loop of \<open>SetNewStartIndex\<close>, as the spec words it: from the current
  block, while its index is not below the start index, the block stored under it is loaded
  and removed by one call of \<open>RemoveBlock\<close>, and the walk goes on from its parent. The
  relation holds the identifiers that the walk has passed to \<open>RemoveBlock\<close>, in order
  (each the \<^verbatim>\<open>block.BlockIdentifier\<close> of the block that was loaded; every call but
  a last one that returned an error has removed its block), the identifier at which the
  walk ended and the result: \<^verbatim>\<open>nil\<close> when the index of that identifier is below
  the start index, the error when the block could not be loaded or removed.
\<close>

inductive removalWalk ::
  "'w BlockStorage \<Rightarrow> int64 \<Rightarrow> BlockIdentifier \<Rightarrow> kv \<times> 'w \<Rightarrow> BlockIdentifier list \<Rightarrow>
   BlockIdentifier \<Rightarrow> error option \<times> kv \<times> 'w \<Rightarrow> bool"
  for b :: "'w BlockStorage" and startIndex :: int64 where
  walk_below:
    "Index currBlock <s startIndex \<Longrightarrow>
     removalWalk b startIndex currBlock st [] currBlock (None, st)"
| walk_missing:
    "\<not> Index currBlock <s startIndex \<Longrightarrow> GetBlock (fst st) currBlock = Inl err \<Longrightarrow>
     removalWalk b startIndex currBlock st [] currBlock (Some err, st)"
| walk_failed:
    "\<not> Index currBlock <s startIndex \<Longrightarrow> GetBlock (fst st) currBlock = Inr block \<Longrightarrow>
     RemoveBlock b (BlockIdentifier block) st = (Some err, st') \<Longrightarrow>
     removalWalk b startIndex currBlock st [BlockIdentifier block] currBlock (Some err, st')"
| walk_removed:
    "\<not> Index currBlock <s startIndex \<Longrightarrow> GetBlock (fst st) currBlock = Inr block \<Longrightarrow>
     RemoveBlock b (BlockIdentifier block) st = (None, st') \<Longrightarrow>
     removalWalk b startIndex (ParentBlockIdentifier block) st' removals final res \<Longrightarrow>
     removalWalk b startIndex currBlock st (BlockIdentifier block # removals) final res"


section \<open>Example data\<close>

text \<open>
  Blocks after those of the package's tests, a block storage without workers, and a coin
  storage whose asserter knows the statuses \<^verbatim>\<open>Success\<close> and \<^verbatim>\<open>Failure\<close>.
\<close>

definition exampleStorage :: "unit BlockStorage" where
  "exampleStorage = \<lparr>workers = [], commitFault = (\<lambda>txn. None)\<rparr>"

definition exampleTx :: Transaction where
  "exampleTx = \<lparr>TransactionIdentifier = \<lparr>TxHash = ''blahTx''\<rparr>, Operations = []\<rparr>"

definition newBlock :: Block where
  "newBlock = \<lparr>BlockIdentifier = \<lparr>Hash = ''blah 1'', Index = 1\<rparr>,
                ParentBlockIdentifier = \<lparr>Hash = ''blah 0'', Index = 0\<rparr>,
                Timestamp = 1, Transactions = [exampleTx]\<rparr>"

definition newBlock2 :: Block where
  "newBlock2 = \<lparr>BlockIdentifier = \<lparr>Hash = ''blah 2'', Index = 2\<rparr>,
                 ParentBlockIdentifier = \<lparr>Hash = ''blah 1'', Index = 1\<rparr>,
                 Timestamp = 1, Transactions = [exampleTx]\<rparr>"

definition exampleCoinStorage :: CoinStorage where
  "exampleCoinStorage =
     \<lparr>OperationSuccessful =
        (\<lambda>operation. if Status operation = ''Success'' then Inr True
                      else if Status operation = ''Failure'' then Inr False
                      else Inl (Errorf ''unknown status'')),
      types_Hash = Address\<rparr>"

definition exampleAccount :: AccountIdentifier where
  "exampleAccount = \<lparr>Address = ''addr1'', SubAccount = None\<rparr>"

definition failedOperation :: Operation where
  "failedOperation =
     \<lparr>OperationIndex = 0, Type = ''Transfer'', Status = ''Failure'', Account = exampleAccount,
      Amount = Some \<lparr>Value = ''100'', Currency = ''hello''\<rparr>,
      Metadata = [(''utxo_created'', MetaString ''c1''), (''utxo_spent'', MetaString ''c0'')]\<rparr>"

definition twoSightings :: kv where
  "twoSightings =
     [''transaction-hash/blahTx'' \<mapsto> EncBlocks [(''blah 1'', 1), (''blah 2'', 2)],
      ''head-block'' \<mapsto> EncBlockIdentifier \<lparr>Hash = ''blah 2'', Index = 2\<rparr>]"

text \<open>
  Workers whose callbacks write their name to a log: the first stages a key and logs, the
  second returns no callback, the callback of the third logs and fails, the fourth logs;
  and a worker that fails.
\<close>

definition logging :: "string \<Rightarrow> error option \<Rightarrow> string list CommitWorker" where
  "logging name result = (\<lambda>log. (result, log @ [name]))"

definition stagingWorker :: "string \<Rightarrow> string list CommitWorker option \<Rightarrow> string list BlockWorker" where
  "stagingWorker name cw =
     \<lparr>AddingBlock = (\<lambda>block txn. Inr (txn_Set txn name EncEmpty, cw)),
      RemovingBlock = (\<lambda>block txn. Inr (txn_Delete txn name, cw))\<rparr>"

definition failingWorker :: "string list BlockWorker" where
  "failingWorker =
     \<lparr>AddingBlock = (\<lambda>block txn. Inl (Errorf ''worker failed'')),
      RemovingBlock = (\<lambda>block txn. Inl (Errorf ''worker failed''))\<rparr>"

definition loggingStorage :: "string list BlockStorage" where
  "loggingStorage =
     \<lparr>workers = [stagingWorker ''w1'' (Some (logging ''w1'' None)),
                 stagingWorker ''w2'' None,
                 stagingWorker ''w3'' (Some (logging ''w3'' (Some (Errorf ''callback failed'')))),
                 stagingWorker ''w4'' (Some (logging ''w4'' None))],
      commitFault = (\<lambda>txn. None)\<rparr>"

definition failingStorage :: "string list BlockStorage" where
  "failingStorage =
     \<lparr>workers = [stagingWorker ''w1'' (Some (logging ''w1'' None)), failingWorker,
                 stagingWorker ''w4'' (Some (logging ''w4'' None))],
      commitFault = (\<lambda>txn. None)\<rparr>"

text \<open>
  The empty database, the block of the tests that holds the same transaction hash twice,
  and a database in which a block of that block's hash is stored.
\<close>

definition emptyDatabase :: kv where
  "emptyDatabase = Map.empty"

definition exampleTx3 :: Transaction where
  "exampleTx3 = \<lparr>TransactionIdentifier = \<lparr>TxHash = ''blahTx3''\<rparr>, Operations = []\<rparr>"

definition duplicateTxBlock :: Block where
  "duplicateTxBlock = \<lparr>BlockIdentifier = \<lparr>Hash = ''blah 4'', Index = 4\<rparr>,
                        ParentBlockIdentifier = \<lparr>Hash = ''blah 3'', Index = 3\<rparr>,
                        Timestamp = 1, Transactions = [exampleTx3, exampleTx3]\<rparr>"

definition plainBlock4 :: Block where
  "plainBlock4 = \<lparr>BlockIdentifier = \<lparr>Hash = ''blah 4'', Index = 4\<rparr>,
                   ParentBlockIdentifier = \<lparr>Hash = ''blah 3'', Index = 3\<rparr>,
                   Timestamp = 1, Transactions = []\<rparr>"

definition plainBlock4Stored :: kv where
  "plainBlock4Stored =
     [''block/blah 4/4'' \<mapsto> EncBlock plainBlock4,
      ''head-block'' \<mapsto> EncBlockIdentifier \<lparr>Hash = ''blah 4'', Index = 4\<rparr>,
      ''block-hash/blah 4'' \<mapsto> EncEmpty]"

text \<open>The databases after \<open>newBlock\<close> and then \<open>newBlock2\<close> were added to the empty one.\<close>

definition newBlockStored :: kv where
  "newBlockStored =
     [''block/blah 1/1'' \<mapsto> EncBlock newBlock,
      ''head-block'' \<mapsto> EncBlockIdentifier \<lparr>Hash = ''blah 1'', Index = 1\<rparr>,
      ''block-hash/blah 1'' \<mapsto> EncEmpty,
      ''transaction-hash/blahTx'' \<mapsto> EncBlocks [(''blah 1'', 1)]]"

definition newBlock2Stored :: kv where
  "newBlock2Stored =
     newBlockStored
       (''block/blah 2/2'' \<mapsto> EncBlock newBlock2,
        ''head-block'' \<mapsto> EncBlockIdentifier \<lparr>Hash = ''blah 2'', Index = 2\<rparr>,
        ''block-hash/blah 2'' \<mapsto> EncEmpty,
        ''transaction-hash/blahTx'' \<mapsto> EncBlocks [(''blah 1'', 1), (''blah 2'', 2)])"

text \<open>The database after \<open>newBlock2Stored\<close> has lost both its blocks.\<close>

definition bothRemoved :: kv where
  "bothRemoved = [''head-block'' \<mapsto> EncBlockIdentifier \<lparr>Hash = ''blah 0'', Index = 0\<rparr>]"

text \<open>
  A block storage whose only worker is the coin storage, a block whose operation creates
  the coin \<^verbatim>\<open>c1\<close> and a block whose operation spends it.
\<close>

definition coinWorkerStorage :: "unit BlockStorage" where
  "coinWorkerStorage =
     \<lparr>workers = [CoinStorage_worker exampleCoinStorage], commitFault = (\<lambda>txn. None)\<rparr>"

definition creatingOperation :: Operation where
  "creatingOperation =
     \<lparr>OperationIndex = 0, Type = ''Transfer'', Status = ''Success'', Account = exampleAccount,
      Amount = Some \<lparr>Value = ''10'', Currency = ''hello''\<rparr>,
      Metadata = [(''utxo_created'', MetaString ''c1'')]\<rparr>"

definition spendingOperation :: Operation where
  "spendingOperation =
     \<lparr>OperationIndex = 0, Type = ''Transfer'', Status = ''Success'', Account = exampleAccount,
      Amount = Some \<lparr>Value = ''-10'', Currency = ''hello''\<rparr>,
      Metadata = [(''utxo_spent'', MetaString ''c1'')]\<rparr>"

definition creatingTx :: Transaction where
  "creatingTx =
     \<lparr>TransactionIdentifier = \<lparr>TxHash = ''txA''\<rparr>, Operations = [creatingOperation]\<rparr>"

definition spendingTx :: Transaction where
  "spendingTx =
     \<lparr>TransactionIdentifier = \<lparr>TxHash = ''txB''\<rparr>, Operations = [spendingOperation]\<rparr>"

definition creatingBlock :: Block where
  "creatingBlock = \<lparr>BlockIdentifier = \<lparr>Hash = ''blah 1'', Index = 1\<rparr>,
                     ParentBlockIdentifier = \<lparr>Hash = ''blah 0'', Index = 0\<rparr>,
                     Timestamp = 1, Transactions = [creatingTx]\<rparr>"

definition spendingBlock :: Block where
  "spendingBlock = \<lparr>BlockIdentifier = \<lparr>Hash = ''blah 2'', Index = 2\<rparr>,
                     ParentBlockIdentifier = \<lparr>Hash = ''blah 1'', Index = 1\<rparr>,
                     Timestamp = 1, Transactions = [spendingTx]\<rparr>"

text \<open>A block whose only operation has failed and names a coin to create and one to spend.\<close>

definition failedTx :: Transaction where
  "failedTx = \<lparr>TransactionIdentifier = \<lparr>TxHash = ''blahTx''\<rparr>, Operations = [failedOperation]\<rparr>"

definition failedBlock :: Block where
  "failedBlock = \<lparr>BlockIdentifier = \<lparr>Hash = ''blah 1'', Index = 1\<rparr>,
                   ParentBlockIdentifier = \<lparr>Hash = ''blah 0'', Index = 0\<rparr>,
                   Timestamp = 1, Transactions = [failedTx]\<rparr>"

text \<open>
  A worker that deletes the block-hash marker of the block being added, a block storage
  with that worker, a second block of the hash \<^verbatim>\<open>blah 4\<close>, and the databases after
  \<open>plainBlock4\<close> and then that block were added to the empty one.
\<close>

definition markerDeletingWorker :: "unit BlockWorker" where
  "markerDeletingWorker =
     \<lparr>AddingBlock =
        (\<lambda>block txn. Inr (txn_Delete txn (getBlockHashKey (BlockIdentifier block)), None)),
      RemovingBlock = (\<lambda>block txn. Inr (txn, None))\<rparr>"

definition markerDeletingStorage :: "unit BlockStorage" where
  "markerDeletingStorage = \<lparr>workers = [markerDeletingWorker], commitFault = (\<lambda>txn. None)\<rparr>"

definition sameHashBlock :: Block where
  "sameHashBlock = \<lparr>BlockIdentifier = \<lparr>Hash = ''blah 4'', Index = 5\<rparr>,
                     ParentBlockIdentifier = \<lparr>Hash = ''blah 4'', Index = 4\<rparr>,
                     Timestamp = 1, Transactions = []\<rparr>"

definition unmarkedStored :: kv where
  "unmarkedStored =
     [''block/blah 4/4'' \<mapsto> EncBlock plainBlock4,
      ''head-block'' \<mapsto> EncBlockIdentifier \<lparr>Hash = ''blah 4'', Index = 4\<rparr>]"

definition twoOfOneHash :: kv where
  "twoOfOneHash =
     [''block/blah 4/4'' \<mapsto> EncBlock plainBlock4,
      ''block/blah 4/5'' \<mapsto> EncBlock sameHashBlock,
      ''head-block'' \<mapsto> EncBlockIdentifier \<lparr>Hash = ''blah 4'', Index = 5\<rparr>]"

section \<open>Properties\<close>

subsection \<open>Coin storage\<close>

lemma getCoinsLoop_dangling:
  "coinIdentifier \<in> set coins \<Longrightarrow> transaction (getCoinKey coinIdentifier) = None \<Longrightarrow>
   \<exists>err. getCoinsLoop transaction coins coinArr = Inl err"
proof (induction coins arbitrary: coinArr)
  case Nil
  then show ?case by simp
next
  case (Cons x xs)
  show ?case
  proof (cases "getAndDecodeCoin transaction x")
    case (Inl e)
    then show ?thesis by simp
  next
    case (Inr found)
    show ?thesis
    proof (cases found)
      case None
      with Inr show ?thesis by simp
    next
      case (Some coin)
      have "x \<noteq> coinIdentifier"
        using Inr Some Cons.prems(2) by (auto simp: getAndDecodeCoin_def txn_Get_def)
      with Cons.prems have "coinIdentifier \<in> set xs" by simp
      from Cons.IH [OF this Cons.prems(2)] Inr Some show ?thesis by simp
    qed
  qed
qed

text \<open>
  C10. When the coin set stored for an account holds a coin identifier that has no coin
  record, \<open>GetCoins\<close> returns an error (and with it no list of coins): the dangling
  identifier is not skipped.
\<close>

theorem GetCoins_dangling_coin_error:
  assumes "db (getCoinAccountKey c accountIdentifier) = Some (EncCoins coins)"
    and "coinIdentifier \<in> set coins"
    and "db (getCoinKey coinIdentifier) = None"
  shows "\<exists>err. GetCoins c db accountIdentifier = Inl err"
  using assms getCoinsLoop_dangling [of coinIdentifier coins db "[]"]
  by (simp add: GetCoins_def getAndDecodeCoins_def txn_Get_def)

theorem GetCoins_dangling_coin_error_witness:
  "\<exists>err. GetCoins exampleCoinStorage
            [''coinAccountNamespace/addr1'' \<mapsto> EncCoins [''c1'']] exampleAccount = Inl err"
  using GetCoins_dangling_coin_error
          [of "[''coinAccountNamespace/addr1'' \<mapsto> EncCoins [''c1'']]"
              exampleCoinStorage exampleAccount "[''c1'']" "''c1''"]
  by (simp add: getCoinAccountKey_def coinAccountNamespace_def exampleCoinStorage_def
        exampleAccount_def getCoinKey_def coinNamespace_def)

lemma coinOperation_skipped:
  assumes "OperationSuccessful c operation = Inr success"
    and "\<not> success \<or> Amount operation = None"
  shows "coinOperation c createdKey spentKey txn transaction operation = Inr transaction"
  using assms by (auto simp: coinOperation_def)

lemma coinOperations_append:
  "coinOperations c ck sk txn transaction (xs @ ys) =
     (case coinOperations c ck sk txn transaction xs of
        Inl err \<Rightarrow> Inl err
      | Inr transaction' \<Rightarrow> coinOperations c ck sk txn transaction' ys)"
  by (induction xs arbitrary: transaction) (auto split: sum.splits)

lemma coinTransactions_append:
  "coinTransactions c ck sk transaction (xs @ ys) =
     (case coinTransactions c ck sk transaction xs of
        Inl err \<Rightarrow> Inl err
      | Inr transaction' \<Rightarrow> coinTransactions c ck sk transaction' ys)"
  by (induction xs arbitrary: transaction) (auto split: sum.splits)

text \<open>
  C8. In \<open>CoinStorage_AddingBlock\<close>, an operation that the asserter reports as not
  successful, or whose amount is null, leaves the transaction as it found it, whatever its
  metadata holds: no coin is created and none is spent for it. The loop over the operations
  of its block transaction, and with it the whole of \<open>CoinStorage_AddingBlock\<close>, runs as
  if the operation were not among the operations processed.
\<close>

theorem AddingBlock_skips_failed_operation:
  assumes "OperationSuccessful c operation = Inr success"
    and "\<not> success \<or> Amount operation = None"
    and "Transactions block = txnsBefore @ txn # txnsAfter"
    and "Operations txn = before @ operation # after"
  shows "coinOperation c coinCreated coinSpent txn transaction operation = Inr transaction
       \<and> coinOperations c coinCreated coinSpent txn transaction (before @ operation # after)
           = coinOperations c coinCreated coinSpent txn transaction (before @ after)
       \<and> (CoinStorage_AddingBlock c block transaction
             :: error + (kv \<times> 'w CommitWorker option)) =
           (case coinTransactions c coinCreated coinSpent transaction txnsBefore of
              Inl err \<Rightarrow> Inl err
            | Inr transaction1 \<Rightarrow>
                (case coinOperations c coinCreated coinSpent txn transaction1 (before @ after) of
                   Inl err \<Rightarrow> Inl err
                 | Inr transaction2 \<Rightarrow>
                     (case coinTransactions c coinCreated coinSpent transaction2 txnsAfter of
                        Inl err \<Rightarrow> Inl err
                      | Inr transaction3 \<Rightarrow> Inr (transaction3, None))))"
proof -
  have step: "\<And>t. coinOperation c coinCreated coinSpent txn t operation = Inr t"
    using assms(1,2) by (rule coinOperation_skipped)
  have ops: "coinOperations c coinCreated coinSpent txn t (before @ operation # after)
           = coinOperations c coinCreated coinSpent txn t (before @ after)" for t
    by (simp add: step coinOperations_append split: sum.splits)
  have "(CoinStorage_AddingBlock c block transaction
             :: error + (kv \<times> 'w CommitWorker option)) =
           (case coinTransactions c coinCreated coinSpent transaction txnsBefore of
              Inl err \<Rightarrow> Inl err
            | Inr transaction1 \<Rightarrow>
                (case coinOperations c coinCreated coinSpent txn transaction1 (before @ after) of
                   Inl err \<Rightarrow> Inl err
                 | Inr transaction2 \<Rightarrow>
                     (case coinTransactions c coinCreated coinSpent transaction2 txnsAfter of
                        Inl err \<Rightarrow> Inl err
                      | Inr transaction3 \<Rightarrow> Inr (transaction3, None))))"
    by (simp add: CoinStorage_AddingBlock_def assms(3,4) coinTransactions_append ops
          split: sum.splits)
  with step ops show ?thesis by simp
qed

theorem AddingBlock_skips_failed_operation_witness:
  "OperationSuccessful exampleCoinStorage failedOperation = Inr False
   \<and> map_of (Metadata failedOperation) coinCreated = Some (MetaString ''c1'')
   \<and> coinOperation exampleCoinStorage coinCreated coinSpent failedTx Map.empty failedOperation
       = Inr Map.empty
   \<and> (CoinStorage_AddingBlock exampleCoinStorage failedBlock Map.empty
         :: error + (kv \<times> unit CommitWorker option))
       = Inr (Map.empty, None)"
proof -
  have h: "OperationSuccessful exampleCoinStorage failedOperation = Inr False"
    by (simp add: exampleCoinStorage_def failedOperation_def)
  have m: "map_of (Metadata failedOperation) coinCreated = Some (MetaString ''c1'')"
    by (simp add: failedOperation_def coinCreated_def)
  have t: "Transactions failedBlock = [] @ failedTx # []"
    by (simp add: failedBlock_def)
  have p: "Operations failedTx = [] @ failedOperation # []"
    by (simp add: failedTx_def)
  from h m AddingBlock_skips_failed_operation [where 'w = unit, OF h _ t p, of Map.empty]
  show ?thesis by simp
qed

subsection \<open>Finding a transaction\<close>

lemma sle_MaxInt64: "(i :: int64) \<le>s MaxInt64"
proof -
  have "sint i < 2 ^ (LENGTH(64) - 1)" by (rule sint_lt)
  then show ?thesis by (simp add: MaxInt64_def word_sle_eq)
qed

lemma findTransactionLoop_ids:
  "fst (findTransactionLoop blocks (ids, oldestBlock)) =
     ids @ map (\<lambda>(hash, index). \<lparr>Hash = hash, Index = index\<rparr>) blocks"
  by (induction blocks arbitrary: ids oldestBlock) auto

lemma findTransactionLoop_le:
  "snd (findTransactionLoop blocks (ids, oldestBlock)) \<le>s oldestBlock"
proof (induction blocks arbitrary: ids oldestBlock)
  case Nil
  show ?case by simp
next
  case (Cons x xs)
  obtain hash index where x: "x = (hash, index)" by (cases x)
  let ?o = "if index <s oldestBlock then index else oldestBlock"
  have "snd (findTransactionLoop xs (ids @ [\<lparr>Hash = hash, Index = index\<rparr>], ?o)) \<le>s ?o"
    by (rule Cons.IH)
  moreover have "?o \<le>s oldestBlock" by (simp add: signed.less_imp_le)
  ultimately show ?case unfolding x findTransactionLoop.simps by (rule signed.order_trans)
qed

lemma findTransactionLoop_lower:
  "i \<in> snd ` set blocks \<Longrightarrow> snd (findTransactionLoop blocks (ids, oldestBlock)) \<le>s i"
proof (induction blocks arbitrary: ids oldestBlock)
  case Nil
  then show ?case by simp
next
  case (Cons x xs)
  obtain hash index where x: "x = (hash, index)" by (cases x)
  let ?o = "if index <s oldestBlock then index else oldestBlock"
  let ?r = "snd (findTransactionLoop xs (ids @ [\<lparr>Hash = hash, Index = index\<rparr>], ?o))"
  show ?case
  proof (cases "i \<in> snd ` set xs")
    case True
    from Cons.IH [OF True] show ?thesis by (simp add: x)
  next
    case False
    with Cons.prems x have ij: "index = i" by auto
    have "?r \<le>s ?o" by (rule findTransactionLoop_le)
    moreover have "?o \<le>s i" using ij by (auto simp: signed.not_less)
    ultimately have "?r \<le>s i" by (rule signed.order_trans)
    then show ?thesis by (simp add: x)
  qed
qed

lemma findTransactionLoop_mem:
  "snd (findTransactionLoop blocks (ids, oldestBlock)) \<in> insert oldestBlock (snd ` set blocks)"
proof (induction blocks arbitrary: ids oldestBlock)
  case Nil
  show ?case by simp
next
  case (Cons x xs)
  obtain hash index where x: "x = (hash, index)" by (cases x)
  let ?o = "if index <s oldestBlock then index else oldestBlock"
  have "snd (findTransactionLoop xs (ids @ [\<lparr>Hash = hash, Index = index\<rparr>], ?o))
          \<in> insert ?o (snd ` set xs)"
    by (rule Cons.IH)
  then show ?case by (auto simp: x split: if_splits)
qed

lemma findTransactionLoop_MaxInt64_mem:
  assumes "blocks \<noteq> []"
  shows "snd (findTransactionLoop blocks (ids, MaxInt64)) \<in> snd ` set blocks"
proof -
  obtain hash index xs where b: "blocks = (hash, index) # xs" using assms by (cases blocks) auto
  have "index \<le>s MaxInt64" by (rule sle_MaxInt64)
  then have "(if index <s MaxInt64 then index else MaxInt64) = index"
    by (auto simp: signed.less_le)
  then have "snd (findTransactionLoop blocks (ids, MaxInt64))
               = snd (findTransactionLoop xs (ids @ [\<lparr>Hash = hash, Index = index\<rparr>], index))"
    by (simp add: b)
  moreover have "snd (findTransactionLoop xs (ids @ [\<lparr>Hash = hash, Index = index\<rparr>], index))
                   \<in> insert index (snd ` set xs)"
    by (rule findTransactionLoop_mem)
  ultimately show ?thesis by (simp add: b)
qed

text \<open>
  C5. \<open>FindTransaction\<close>: when no reverse-index entry is stored for the transaction hash
  the result is \<^verbatim>\<open>(nil, -1, nil)\<close>; when an entry is stored and the head key is absent the
  call fails with \<open>ErrHeadBlockNotFound\<close>; when an entry with at least one sighting and a
  head are stored the result holds the block identifier of every sighting of the stored
  mapping and the head's index minus the least sighting index (least in the signed order of
  \<^verbatim>\<open>int64\<close>, the subtraction being that of \<^verbatim>\<open>int64\<close>).
\<close>

theorem FindTransaction_result:
  "(db (getTransactionHashKey t) = None \<longrightarrow> FindTransaction db t = (None, - 1, None))
 \<and> (db (getTransactionHashKey t) = Some (EncBlocks blocks) \<and> db getHeadBlockKey = None \<longrightarrow>
      FindTransaction db t = (None, - 1, Some ErrHeadBlockNotFound))
 \<and> (db (getTransactionHashKey t) = Some (EncBlocks blocks)
      \<and> db getHeadBlockKey = Some (EncBlockIdentifier head) \<and> blocks \<noteq> [] \<longrightarrow>
      (\<exists>oldest. oldest \<in> snd ` set blocks \<and> (\<forall>index \<in> snd ` set blocks. oldest \<le>s index)
         \<and> FindTransaction db t =
             (Some (map (\<lambda>(hash, index). \<lparr>Hash = hash, Index = index\<rparr>) blocks),
              Index head - oldest, None)))"
proof (intro conjI impI)
  assume "db (getTransactionHashKey t) = None"
  then show "FindTransaction db t = (None, - 1, None)"
    by (simp add: FindTransaction_def txn_Get_def)
next
  assume "db (getTransactionHashKey t) = Some (EncBlocks blocks) \<and> db getHeadBlockKey = None"
  then show "FindTransaction db t = (None, - 1, Some ErrHeadBlockNotFound)"
    by (simp add: FindTransaction_def txn_Get_def)
next
  let ?oldest = "snd (findTransactionLoop blocks ([], MaxInt64))"
  assume a: "db (getTransactionHashKey t) = Some (EncBlocks blocks)
      \<and> db getHeadBlockKey = Some (EncBlockIdentifier head) \<and> blocks \<noteq> []"
  then have "?oldest \<in> snd ` set blocks"
    by (simp add: findTransactionLoop_MaxInt64_mem)
  moreover have "\<forall>index \<in> snd ` set blocks. ?oldest \<le>s index"
    using findTransactionLoop_lower by blast
  moreover have "FindTransaction db t =
             (Some (map (\<lambda>(hash, index). \<lparr>Hash = hash, Index = index\<rparr>) blocks),
              Index head - ?oldest, None)"
    using a findTransactionLoop_ids [of blocks "[]" MaxInt64]
    by (auto simp: FindTransaction_def txn_Get_def split: prod.splits)
  ultimately show "\<exists>oldest. oldest \<in> snd ` set blocks \<and> (\<forall>index \<in> snd ` set blocks. oldest \<le>s index)
         \<and> FindTransaction db t =
             (Some (map (\<lambda>(hash, index). \<lparr>Hash = hash, Index = index\<rparr>) blocks),
              Index head - oldest, None)"
    by blast
qed

theorem FindTransaction_result_witness:
  "FindTransaction Map.empty \<lparr>TxHash = ''blahTx''\<rparr> = (None, - 1, None)
   \<and> FindTransaction [''transaction-hash/blahTx'' \<mapsto> EncBlocks [(''blah 1'', 1)]]
         \<lparr>TxHash = ''blahTx''\<rparr>
       = (None, - 1, Some ErrHeadBlockNotFound)
   \<and> FindTransaction twoSightings \<lparr>TxHash = ''blahTx''\<rparr>
       = (Some [\<lparr>Hash = ''blah 1'', Index = 1\<rparr>, \<lparr>Hash = ''blah 2'', Index = 2\<rparr>], 1, None)"
proof -
  have k: "getTransactionHashKey \<lparr>TxHash = ''blahTx''\<rparr> = ''transaction-hash/blahTx''"
    "getHeadBlockKey = ''head-block''"
    by (simp_all add: getTransactionHashKey_def transactionHashNamespace_def
          getHeadBlockKey_def headBlockKey_def)
  note t = FindTransaction_result [where t = "\<lparr>TxHash = ''blahTx''\<rparr>"]
  have 1: "FindTransaction Map.empty \<lparr>TxHash = ''blahTx''\<rparr> = (None, - 1, None)"
    using t [of Map.empty] by simp
  have 2: "FindTransaction [''transaction-hash/blahTx'' \<mapsto> EncBlocks [(''blah 1'', 1)]]
             \<lparr>TxHash = ''blahTx''\<rparr>
           = (None, - 1, Some ErrHeadBlockNotFound)"
    using t [of "[''transaction-hash/blahTx'' \<mapsto> EncBlocks [(''blah 1'', 1)]]"
                "[(''blah 1'', 1)]"]
    by (simp add: k)
  have 3: "FindTransaction twoSightings \<lparr>TxHash = ''blahTx''\<rparr>
           = (Some [\<lparr>Hash = ''blah 1'', Index = 1\<rparr>, \<lparr>Hash = ''blah 2'', Index = 2\<rparr>], 1, None)"
    using t [of twoSightings "[(''blah 1'', 1), (''blah 2'', 2)]"
                "\<lparr>Hash = ''blah 2'', Index = 2\<rparr>"]
    by (auto simp add: k twoSightings_def word_sle_eq)
  from 1 2 3 show ?thesis by simp
qed

subsection \<open>Workers, commit and callbacks\<close>

lemmas key_defs = getBlockKey_def getBlockHashKey_def getHeadBlockKey_def
  getTransactionHashKey_def blockNamespace_def blockHashNamespace_def headBlockKey_def
  transactionHashNamespace_def string_of_int_def string_of_nat.simps digit_char_def

lemma AddBlock_unfold:
  "AddBlock b block (db, world) =
     (case AddBlock_staged db block of
        Inl err \<Rightarrow> (Some err, db, world)
      | Inr txn \<Rightarrow> callWorkersAndCommit b block txn True (db, world))"
  by (simp add: AddBlock_def AddBlock_staged_def split: sum.splits)

lemma RemoveBlock_unfold:
  "RemoveBlock b blockIdentifier (db, world) =
     (case RemoveBlock_staged db blockIdentifier of
        Inl err \<Rightarrow> (Some err, db, world)
      | Inr (block, txn) \<Rightarrow> callWorkersAndCommit b block txn False (db, world))"
  by (simp add: RemoveBlock_def RemoveBlock_staged_def split: sum.splits)

lemma runCommitWorkers_invokeInOrder:
  "runCommitWorkers cws world = invokeInOrder (nonNull cws) world"
proof (induction cws arbitrary: world)
  case Nil
  show ?case by (simp add: nonNull_def)
next
  case (Cons cw cws)
  show ?case
  proof (cases cw)
    case None
    with Cons.IH show ?thesis by (simp add: nonNull_def)
  next
    case (Some f)
    with Cons.IH show ?thesis
      by (auto simp: nonNull_def split: prod.splits option.splits)
  qed
qed

lemma callWorkers_length:
  "callWorkers ws adding block txn = Inr (txn', cws) \<Longrightarrow> length cws = length ws"
proof (induction ws arbitrary: txn txn' cws)
  case Nil
  then show ?case by simp
next
  case (Cons w ws)
  from Cons.prems obtain txn1 cw cws1
    where "callWorkers ws adding block txn1 = Inr (txn', cws1)" and "cws = cw # cws1"
    by (auto split: sum.splits)
  with Cons.IH show ?case by auto
qed

lemma callWorkers_append:
  "callWorkers (ws @ vs) adding block txn =
     (case callWorkers ws adding block txn of
        Inl err \<Rightarrow> Inl err
      | Inr (txn', cws) \<Rightarrow>
          (case callWorkers vs adding block txn' of
             Inl err \<Rightarrow> Inl err
           | Inr (txn'', cvs) \<Rightarrow> Inr (txn'', cws @ cvs)))"
proof (induction ws arbitrary: txn)
  case Nil
  show ?case by (simp split: sum.splits)
next
  case (Cons w ws)
  show ?case
  proof (cases "if adding then AddingBlock w block txn else RemovingBlock w block txn")
    case (Inl err)
    then show ?thesis by simp
  next
    case (Inr res)
    obtain txn1 cw where res: "res = (txn1, cw)" by (cases res)
    show ?thesis
      unfolding append_Cons callWorkers.simps Inr res
      by (simp add: Cons.IH [of txn1] split: sum.splits)
  qed
qed

lemma callWorkers_nth:
  assumes "callWorkers ws adding block txn = Inr (txn', cws)" and "i < length ws"
  shows "\<exists>t t'. (if adding then AddingBlock (ws ! i) block t else RemovingBlock (ws ! i) block t)
                  = Inr (t', cws ! i)"
  using assms
proof (induction ws arbitrary: txn cws i)
  case Nil
  then show ?case by simp
next
  case (Cons w ws)
  from Cons.prems(1) obtain txn1 cw cws1 where
    c1: "(if adding then AddingBlock w block txn else RemovingBlock w block txn) = Inr (txn1, cw)"
    and c2: "callWorkers ws adding block txn1 = Inr (txn', cws1)"
    and cws: "cws = cw # cws1"
    by (auto split: sum.splits)
  show ?case
  proof (cases i)
    case 0
    with c1 cws have
      "(if adding then AddingBlock ((w # ws) ! i) block txn
        else RemovingBlock ((w # ws) ! i) block txn) = Inr (txn1, cws ! i)"
      by (cases adding) simp_all
    then show ?thesis by blast
  next
    case (Suc j)
    with Cons.prems(2) have "j < length ws" by simp
    from Cons.IH [OF c2 this] obtain t t' where
      "(if adding then AddingBlock (ws ! j) block t else RemovingBlock (ws ! j) block t)
         = Inr (t', cws1 ! j)"
      by blast
    with Suc cws have
      "(if adding then AddingBlock ((w # ws) ! i) block t
        else RemovingBlock ((w # ws) ! i) block t) = Inr (t', cws ! i)"
      by (cases adding) simp_all
    then show ?thesis by blast
  qed
qed

lemma callWorkersAndCommit_outcome:
  assumes "callWorkersAndCommit b block txn adding (db, world) = (r, db', world')"
  shows "(\<exists>err. r = Some err \<and> db' = db \<and> world' = world
            \<and> (callWorkers (workers b) adding block txn = Inl err
               \<or> (\<exists>txn' cws. callWorkers (workers b) adding block txn = Inr (txn', cws)
                     \<and> commitFault b txn' = Some err)))
       \<or> (\<exists>cws. callWorkers (workers b) adding block txn = Inr (db', cws)
            \<and> commitFault b db' = None
            \<and> (r, world') = invokeInOrder (nonNull cws) world)"
proof (cases "callWorkers (workers b) adding block txn")
  case (Inl err)
  with assms show ?thesis by (simp add: callWorkersAndCommit_def)
next
  case (Inr res)
  obtain txn' cws where res: "res = (txn', cws)" by (cases res)
  show ?thesis
  proof (cases "commitFault b txn'")
    case (Some err)
    with assms Inr res show ?thesis by (auto simp: callWorkersAndCommit_def)
  next
    case None
    with assms Inr res show ?thesis
      by (auto simp: callWorkersAndCommit_def runCommitWorkers_invokeInOrder
               split: prod.splits)
  qed
qed

text \<open>
  C4. \<open>AddBlock\<close> and \<open>RemoveBlock\<close> end with \<open>callWorkersAndCommit\<close> on the transaction
  they have staged. There, either a worker or the commit fails, and then the call returns
  that error with the database and the outside world as they were (no callback has run);
  or the workers and the commit succeed, and then the database is the committed
  transaction, the callbacks are those the workers returned, one per registered worker in
  registration order, and the outcome is that of invoking the non-null ones in that order
  up to the first error, which is returned while the committed database stays.
\<close>

theorem callbacks_only_after_commit:
  assumes "callWorkersAndCommit b block txn adding (db, world) = (r, db', world')"
  shows "((\<exists>err. r = Some err \<and> db' = db \<and> world' = world
            \<and> (callWorkers (workers b) adding block txn = Inl err
               \<or> (\<exists>txn' cws. callWorkers (workers b) adding block txn = Inr (txn', cws)
                     \<and> commitFault b txn' = Some err)))
        \<or> (\<exists>cws. callWorkers (workers b) adding block txn = Inr (db', cws)
             \<and> commitFault b db' = None
             \<and> length cws = length (workers b)
             \<and> (\<forall>i < length (workers b). \<exists>t t'.
                    (if adding then AddingBlock (workers b ! i) block t
                     else RemovingBlock (workers b ! i) block t) = Inr (t', cws ! i))
             \<and> (r, world') = invokeInOrder (nonNull cws) world))
       \<and> AddBlock b added st =
           (case AddBlock_staged (fst st) added of
              Inl err \<Rightarrow> (Some err, st)
            | Inr staged \<Rightarrow> callWorkersAndCommit b added staged True st)
       \<and> RemoveBlock b blockIdentifier st =
           (case RemoveBlock_staged (fst st) blockIdentifier of
              Inl err \<Rightarrow> (Some err, st)
            | Inr (removed, staged) \<Rightarrow> callWorkersAndCommit b removed staged False st)"
proof -
  have order: "length cws = length (workers b)
             \<and> (\<forall>i < length (workers b). \<exists>t t'.
                    (if adding then AddingBlock (workers b ! i) block t
                     else RemovingBlock (workers b ! i) block t) = Inr (t', cws ! i))"
    if "callWorkers (workers b) adding block txn = Inr (db', cws)" for cws
    using that callWorkers_length [OF that] callWorkers_nth [OF that] by blast
  from callWorkersAndCommit_outcome [OF assms] order
  have 1: "(\<exists>err. r = Some err \<and> db' = db \<and> world' = world
            \<and> (callWorkers (workers b) adding block txn = Inl err
               \<or> (\<exists>txn' cws. callWorkers (workers b) adding block txn = Inr (txn', cws)
                     \<and> commitFault b txn' = Some err)))
        \<or> (\<exists>cws. callWorkers (workers b) adding block txn = Inr (db', cws)
             \<and> commitFault b db' = None
             \<and> length cws = length (workers b)
             \<and> (\<forall>i < length (workers b). \<exists>t t'.
                    (if adding then AddingBlock (workers b ! i) block t
                     else RemovingBlock (workers b ! i) block t) = Inr (t', cws ! i))
             \<and> (r, world') = invokeInOrder (nonNull cws) world)"
    by blast
  have 2: "AddBlock b added st =
           (case AddBlock_staged (fst st) added of
              Inl err \<Rightarrow> (Some err, st)
            | Inr staged \<Rightarrow> callWorkersAndCommit b added staged True st)"
    by (cases st) (simp add: AddBlock_unfold split: sum.splits)
  have 3: "RemoveBlock b blockIdentifier st =
           (case RemoveBlock_staged (fst st) blockIdentifier of
              Inl err \<Rightarrow> (Some err, st)
            | Inr (removed, staged) \<Rightarrow> callWorkersAndCommit b removed staged False st)"
    by (cases st) (simp add: RemoveBlock_unfold split: sum.splits)
  from 1 2 3 show ?thesis by simp
qed

theorem callbacks_only_after_commit_witness:
  "callWorkersAndCommit loggingStorage newBlock Map.empty True (Map.empty, []) =
     (Some (Errorf ''callback failed''),
      [''w1'' \<mapsto> EncEmpty, ''w2'' \<mapsto> EncEmpty, ''w3'' \<mapsto> EncEmpty, ''w4'' \<mapsto> EncEmpty],
      [''w1'', ''w3''])
   \<and> (\<exists>cws. length cws = 4
          \<and> (Some (Errorf ''callback failed''), [''w1'', ''w3'']) = invokeInOrder (nonNull cws) [])"
proof -
  have run: "callWorkersAndCommit loggingStorage newBlock Map.empty True (Map.empty, []) =
     (Some (Errorf ''callback failed''),
      [''w1'' \<mapsto> EncEmpty, ''w2'' \<mapsto> EncEmpty, ''w3'' \<mapsto> EncEmpty, ''w4'' \<mapsto> EncEmpty],
      [''w1'', ''w3''])"
    by (simp add: callWorkersAndCommit_def loggingStorage_def stagingWorker_def logging_def
          txn_Set_def)
  have "[''w1'' \<mapsto> EncEmpty, ''w2'' \<mapsto> EncEmpty, ''w3'' \<mapsto> EncEmpty, ''w4'' \<mapsto> EncEmpty]
          \<noteq> (Map.empty :: kv)"
    by simp
  with callbacks_only_after_commit [OF run, THEN conjunct1] have
    "\<exists>cws. length cws = length (workers loggingStorage)
          \<and> (Some (Errorf ''callback failed''), [''w1'', ''w3'']) = invokeInOrder (nonNull cws) []"
    by auto
  moreover have "length (workers loggingStorage) = 4" by (simp add: loggingStorage_def)
  ultimately show ?thesis using run by simp
qed

text \<open>
  C2. When \<open>AddBlock\<close> has staged its writes and a registered worker's \<open>AddingBlock\<close>
  returns an error (the workers before it having succeeded), \<open>AddBlock\<close> returns that
  error, the database is unchanged (nothing staged is persisted) and the outside world is
  unchanged (no commit callback has run).
\<close>

theorem AddBlock_worker_error_atomic:
  assumes "AddBlock_staged db block = Inr txn"
    and "workers b = before @ w # after"
    and "callWorkers before True block txn = Inr (txn', cws)"
    and "AddingBlock w block txn' = Inl err"
  shows "AddBlock b block (db, world) = (Some err, db, world)"
  using assms
  by (simp add: AddBlock_unfold callWorkersAndCommit_def callWorkers_append)

theorem AddBlock_worker_error_atomic_witness:
  "AddBlock failingStorage newBlock (Map.empty, []) = (Some (Errorf ''worker failed''), Map.empty, [])"
proof -
  let ?txn = "[''block/blah 1/1'' \<mapsto> EncBlock newBlock,
               ''head-block'' \<mapsto> EncBlockIdentifier \<lparr>Hash = ''blah 1'', Index = 1\<rparr>,
               ''block-hash/blah 1'' \<mapsto> EncEmpty,
               ''transaction-hash/blahTx'' \<mapsto> EncBlocks [(''blah 1'', 1)]]"
  have staged: "AddBlock_staged Map.empty newBlock = Inr ?txn"
    by (simp add: AddBlock_staged_def newBlock_def exampleTx_def storeBlockHash_def
          storeTransactionHash_def txn_Get_def txn_Set_def StoreHeadBlockIdentifier_def
          key_defs)
  have ws: "workers failingStorage =
              [stagingWorker ''w1'' (Some (logging ''w1'' None))] @ failingWorker
                # [stagingWorker ''w4'' (Some (logging ''w4'' None))]"
    by (simp add: failingStorage_def)
  have first: "callWorkers [stagingWorker ''w1'' (Some (logging ''w1'' None))] True newBlock ?txn
                 = Inr (txn_Set ?txn ''w1'' EncEmpty, [Some (logging ''w1'' None)])"
    by (simp add: stagingWorker_def)
  have fails: "AddingBlock failingWorker newBlock (txn_Set ?txn ''w1'' EncEmpty)
                 = Inl (Errorf ''worker failed'')"
    by (simp add: failingWorker_def)
  show ?thesis
    by (rule AddBlock_worker_error_atomic [OF staged ws first fails])
qed

subsection \<open>Keys\<close>

lemma head_key_distinct [simp]:
  "getBlockKey blockIdentifier \<noteq> getHeadBlockKey"
  "getHeadBlockKey \<noteq> getBlockKey blockIdentifier"
  "getBlockHashKey blockIdentifier \<noteq> getHeadBlockKey"
  "getHeadBlockKey \<noteq> getBlockHashKey blockIdentifier"
  "getTransactionHashKey transactionIdentifier \<noteq> getHeadBlockKey"
  "getHeadBlockKey \<noteq> getTransactionHashKey transactionIdentifier"
  by (simp_all add: getBlockKey_def getBlockHashKey_def getHeadBlockKey_def
        getTransactionHashKey_def blockNamespace_def blockHashNamespace_def headBlockKey_def
        transactionHashNamespace_def)

lemma namespace_distinct [simp]:
  "getBlockKey blockIdentifier \<noteq> getBlockHashKey blockIdentifier'"
  "getBlockHashKey blockIdentifier' \<noteq> getBlockKey blockIdentifier"
  "getBlockKey blockIdentifier \<noteq> getTransactionHashKey transactionIdentifier"
  "getTransactionHashKey transactionIdentifier \<noteq> getBlockKey blockIdentifier"
  "getBlockHashKey blockIdentifier \<noteq> getTransactionHashKey transactionIdentifier"
  "getTransactionHashKey transactionIdentifier \<noteq> getBlockHashKey blockIdentifier"
  by (simp_all add: getBlockKey_def getBlockHashKey_def getHeadBlockKey_def
        getTransactionHashKey_def blockNamespace_def blockHashNamespace_def headBlockKey_def
        transactionHashNamespace_def)

lemma getBlockHashKey_eq:
  "getBlockHashKey a = getBlockHashKey b \<longleftrightarrow> Hash a = Hash b"
  by (simp add: getBlockHashKey_def)

lemma getTransactionHashKey_eq:
  "getTransactionHashKey a = getTransactionHashKey b \<longleftrightarrow> TxHash a = TxHash b"
  by (simp add: getTransactionHashKey_def)

lemma digit_char_inj: "a < 10 \<Longrightarrow> b < 10 \<Longrightarrow> digit_char a = digit_char b \<Longrightarrow> a = b"
proof -
  assume a: "a < 10" and b: "b < 10" and e: "digit_char a = digit_char b"
  have d: "distinct ''0123456789''" by simp
  have "a < length ''0123456789''" "b < length ''0123456789''" using a b by simp_all
  with d e show "a = b" unfolding digit_char_def by (simp only: nth_eq_iff_index_eq)
qed

lemma digit_char_mem: "d < 10 \<Longrightarrow> digit_char d \<in> set ''0123456789''"
  unfolding digit_char_def by (rule nth_mem) simp

lemma string_of_nat_digits: "set (string_of_nat n) \<subseteq> set ''0123456789''"
proof (induction n rule: string_of_nat.induct)
  case (1 n)
  show ?case
  proof (cases "n < 10")
    case True
    then show ?thesis using digit_char_mem [of n] by (subst string_of_nat.simps) simp
  next
    case False
    have "digit_char (n mod 10) \<in> set ''0123456789''" by (rule digit_char_mem) simp
    with False 1 show ?thesis by (subst string_of_nat.simps) simp
  qed
qed

lemma string_of_nat_nonempty: "string_of_nat n \<noteq> []"
  by (subst string_of_nat.simps) simp

lemma string_of_nat_inj: "string_of_nat n = string_of_nat m \<Longrightarrow> n = m"
proof (induction n arbitrary: m rule: string_of_nat.induct)
  case (1 n)
  show ?case
  proof (cases "n < 10")
    case n: True
    show ?thesis
    proof (cases "m < 10")
      case True
      with n "1.prems" show ?thesis
        by (simp add: string_of_nat.simps [of n] string_of_nat.simps [of m] digit_char_inj)
    next
      case False
      with n "1.prems" string_of_nat_nonempty [of "m div 10"] show ?thesis
        by (simp add: string_of_nat.simps [of n] string_of_nat.simps [of m])
    qed
  next
    case n: False
    show ?thesis
    proof (cases "m < 10")
      case True
      with n "1.prems" string_of_nat_nonempty [of "n div 10"] show ?thesis
        by (simp add: string_of_nat.simps [of n] string_of_nat.simps [of m])
    next
      case False
      with n "1.prems" have
        e: "string_of_nat (n div 10) = string_of_nat (m div 10)"
        and d: "digit_char (n mod 10) = digit_char (m mod 10)"
        by (simp_all add: string_of_nat.simps [of n] string_of_nat.simps [of m])
      from "1.IH" [OF n e] have "n div 10 = m div 10" .
      moreover from d have "n mod 10 = m mod 10" by (rule digit_char_inj [rotated 2]) simp_all
      ultimately show ?thesis by (metis div_mult_mod_eq)
    qed
  qed
qed

lemma string_of_int_inj: "string_of_int i = string_of_int j \<Longrightarrow> i = j"
proof -
  assume e: "string_of_int i = string_of_int j"
  have nd: "\<And>n. hd (string_of_nat n) \<noteq> CHR ''-''"
  proof -
    fix n
    have "hd (string_of_nat n) \<in> set (string_of_nat n)"
      by (rule hd_in_set) (rule string_of_nat_nonempty)
    with string_of_nat_digits [of n] show "hd (string_of_nat n) \<noteq> CHR ''-''" by auto
  qed
  show "i = j"
  proof (cases "i < 0")
    case i: True
    show ?thesis
    proof (cases "j < 0")
      case True
      with i e have "string_of_nat (nat (- i)) = string_of_nat (nat (- j))"
        by (simp add: string_of_int_def)
      then have "nat (- i) = nat (- j)" by (rule string_of_nat_inj)
      with i True show ?thesis by simp
    next
      case False
      with i e have "CHR ''-'' # string_of_nat (nat (- i)) = string_of_nat (nat j)"
        by (simp add: string_of_int_def)
      then have "hd (string_of_nat (nat j)) = CHR ''-''" by (metis list.sel(1))
      with nd show ?thesis by simp
    qed
  next
    case i: False
    show ?thesis
    proof (cases "j < 0")
      case True
      with i e have "string_of_nat (nat i) = CHR ''-'' # string_of_nat (nat (- j))"
        by (simp add: string_of_int_def)
      then have "hd (string_of_nat (nat i)) = CHR ''-''" by (metis list.sel(1))
      with nd show ?thesis by simp
    next
      case False
      with i e have "string_of_nat (nat i) = string_of_nat (nat j)"
        by (simp add: string_of_int_def)
      then have "nat i = nat j" by (rule string_of_nat_inj)
      with i False show ?thesis by simp
    qed
  qed
qed

lemma string_of_int_no_slash: "CHR ''/'' \<notin> set (string_of_int i)"
  using string_of_nat_digits [of "nat i"] string_of_nat_digits [of "nat (- i)"]
  by (auto simp: string_of_int_def)

lemma split_at_last:
  assumes "a @ c # s = a' @ c # s'" and "c \<notin> set s" and "c \<notin> set s'"
  shows "a = a' \<and> s = s'"
proof -
  from assms(1) obtain us where
    "(a = a' @ us \<and> us @ c # s = c # s') \<or> (a @ us = a' \<and> c # s = us @ c # s')"
    by (auto simp: append_eq_append_conv2)
  then show ?thesis
  proof
    assume h: "a = a' @ us \<and> us @ c # s = c # s'"
    show ?thesis
    proof (cases us)
      case Nil
      with h show ?thesis by simp
    next
      case (Cons u us')
      with h have "s' = us' @ c # s" by simp
      with assms(3) show ?thesis by simp
    qed
  next
    assume h: "a @ us = a' \<and> c # s = us @ c # s'"
    show ?thesis
    proof (cases us)
      case Nil
      with h show ?thesis by simp
    next
      case (Cons u us')
      with h have "s = us' @ c # s'" by simp
      with assms(2) show ?thesis by simp
    qed
  qed
qed

lemma getBlockKey_inj: "getBlockKey a = getBlockKey b \<Longrightarrow> a = b"
proof -
  assume "getBlockKey a = getBlockKey b"
  then have "Hash a @ CHR ''/'' # string_of_int (sint (Index a))
           = Hash b @ CHR ''/'' # string_of_int (sint (Index b))"
    by (simp add: getBlockKey_def)
  then have "Hash a = Hash b \<and> string_of_int (sint (Index a)) = string_of_int (sint (Index b))"
    by (rule split_at_last) (rule string_of_int_no_slash)+
  then have "Hash a = Hash b" and "sint (Index a) = sint (Index b)"
    by (auto dest: string_of_int_inj)
  then have "Hash a = Hash b" and "Index a = Index b" by (simp_all add: signed_word_eqI)
  then show "a = b" by simp
qed

lemma getBlockKey_eq: "getBlockKey a = getBlockKey b \<longleftrightarrow> a = b"
  by (auto dest: getBlockKey_inj)

subsection \<open>The reverse index\<close>

lemma update_fresh: "map_of m k = None \<Longrightarrow> AList.update k v m = m @ [(k, v)]"
  by (induction m) (auto split: if_splits)

lemma delete_fresh: "map_of m k = None \<Longrightarrow> AList.delete k (m @ [(k, v)]) = m"
  by (induction m) (auto simp: AList.delete_eq split: if_splits)

lemma map_of_snoc_same: "map_of (m @ [(k, v)]) k \<noteq> None"
  by (cases "map_of m k") (simp_all add: map_add_def)

lemma storeTransactionHash_Inr:
  assumes "storeTransactionHash txn blockIdentifier t = Inr txn'"
  shows "holdsBlocks txn (getTransactionHashKey t)
       \<and> map_of (blocksAt txn (getTransactionHashKey t)) (Hash blockIdentifier) = None
       \<and> txn' = txn(getTransactionHashKey t \<mapsto>
                    EncBlocks (blocksAt txn (getTransactionHashKey t)
                                 @ [(Hash blockIdentifier, Index blockIdentifier)]))"
proof (cases "txn (getTransactionHashKey t)")
  case None
  with assms show ?thesis
    by (auto simp: storeTransactionHash_def txn_Get_def txn_Set_def holdsBlocks_def blocksAt_def)
next
  case (Some val)
  with assms obtain blocks where val: "val = EncBlocks blocks"
    by (cases val) (simp_all add: storeTransactionHash_def txn_Get_def)
  from assms Some val have n: "map_of blocks (Hash blockIdentifier) = None"
    by (simp add: storeTransactionHash_def txn_Get_def split: if_splits)
  then have "AList.update (Hash blockIdentifier) (Index blockIdentifier) blocks
               = blocks @ [(Hash blockIdentifier, Index blockIdentifier)]"
    by (rule update_fresh)
  with assms Some val n show ?thesis
    by (simp add: storeTransactionHash_def txn_Get_def txn_Set_def holdsBlocks_def blocksAt_def)
qed

lemma storeTransactionHash_Inl:
  assumes "storeTransactionHash txn blockIdentifier t = Inl err"
    and "holdsBlocks txn (getTransactionHashKey t)"
  shows "errors_Is err ErrDuplicateTransactionHash"
proof (cases "txn (getTransactionHashKey t)")
  case None
  with assms show ?thesis by (simp add: storeTransactionHash_def txn_Get_def)
next
  case (Some val)
  with assms(2) obtain blocks where "val = EncBlocks blocks"
    by (cases val) (simp_all add: holdsBlocks_def)
  with assms(1) Some show ?thesis
    by (auto simp: storeTransactionHash_def txn_Get_def split: if_splits)
qed

text \<open>What the loop of \<open>AddBlock\<close> over the transactions has written when it succeeds.\<close>

lemma storeTransactionHashes_Inr:
  assumes "storeTransactionHashes txn blockIdentifier txns = Inr txn'"
  shows "distinct (map (\<lambda>t. getTransactionHashKey (TransactionIdentifier t)) txns)
       \<and> (\<forall>t \<in> set txns.
             holdsBlocks txn (getTransactionHashKey (TransactionIdentifier t))
             \<and> map_of (blocksAt txn (getTransactionHashKey (TransactionIdentifier t)))
                  (Hash blockIdentifier) = None)
       \<and> (\<forall>key. txn' key =
             (if key \<in> (\<lambda>t. getTransactionHashKey (TransactionIdentifier t)) ` set txns
              then Some (EncBlocks (blocksAt txn key
                                      @ [(Hash blockIdentifier, Index blockIdentifier)]))
              else txn key))"
  using assms
proof (induction txns arbitrary: txn)
  case Nil
  then show ?case by simp
next
  case (Cons t ts)
  let ?k = "\<lambda>t. getTransactionHashKey (TransactionIdentifier t)"
  let ?h = "Hash blockIdentifier"
  let ?e = "(Hash blockIdentifier, Index blockIdentifier)"
  from Cons.prems obtain txn1 where
    s1: "storeTransactionHash txn blockIdentifier (TransactionIdentifier t) = Inr txn1"
    and s2: "storeTransactionHashes txn1 blockIdentifier ts = Inr txn'"
    by (auto split: sum.splits)
  from storeTransactionHash_Inr [OF s1] have
    h1: "holdsBlocks txn (?k t)"
    and n1: "map_of (blocksAt txn (?k t)) ?h = None"
    and t1: "txn1 = txn(?k t \<mapsto> EncBlocks (blocksAt txn (?k t) @ [?e]))"
    by simp_all
  from Cons.IH [OF s2] have
    d: "distinct (map ?k ts)"
    and f: "\<forall>u \<in> set ts. holdsBlocks txn1 (?k u) \<and> map_of (blocksAt txn1 (?k u)) ?h = None"
    and p: "\<forall>key. txn' key =
              (if key \<in> ?k ` set ts then Some (EncBlocks (blocksAt txn1 key @ [?e]))
               else txn1 key)"
    by simp_all
  have fresh: "?k t \<notin> ?k ` set ts"
  proof
    assume "?k t \<in> ?k ` set ts"
    then obtain u where u: "u \<in> set ts" and ku: "?k u = ?k t" by auto
    from f u have "map_of (blocksAt txn1 (?k u)) ?h = None" by simp
    moreover have "blocksAt txn1 (?k u) = blocksAt txn (?k t) @ [?e]"
      unfolding ku by (simp add: t1 blocksAt_def)
    ultimately show False by simp
  qed
  have other: "\<And>key. key \<noteq> ?k t \<Longrightarrow> txn1 key = txn key"
    by (simp add: t1)
  have otherB: "\<And>key. key \<noteq> ?k t \<Longrightarrow> blocksAt txn1 key = blocksAt txn key"
    by (simp add: blocksAt_def other)
  have otherH: "\<And>key. key \<noteq> ?k t \<Longrightarrow> holdsBlocks txn1 key = holdsBlocks txn key"
    by (simp add: holdsBlocks_def other)
  have c1: "distinct (map ?k (t # ts))" using d fresh by simp
  have c2: "\<forall>u \<in> set (t # ts). holdsBlocks txn (?k u) \<and> map_of (blocksAt txn (?k u)) ?h = None"
  proof
    fix u assume u: "u \<in> set (t # ts)"
    show "holdsBlocks txn (?k u) \<and> map_of (blocksAt txn (?k u)) ?h = None"
    proof (cases "?k u = ?k t")
      case True
      with h1 n1 show ?thesis by simp
    next
      case False
      with u have "u \<in> set ts" by auto
      with f have "holdsBlocks txn1 (?k u) \<and> map_of (blocksAt txn1 (?k u)) ?h = None" by blast
      with otherB [OF False] otherH [OF False] show ?thesis by simp
    qed
  qed
  have c3: "\<forall>key. txn' key =
              (if key \<in> ?k ` set (t # ts) then Some (EncBlocks (blocksAt txn key @ [?e]))
               else txn key)"
  proof
    fix key
    show "txn' key =
              (if key \<in> ?k ` set (t # ts) then Some (EncBlocks (blocksAt txn key @ [?e]))
               else txn key)"
    proof (cases "key = ?k t")
      case True
      with fresh p have "txn' key = txn1 key" by simp
      with True show ?thesis by (simp add: t1)
    next
      case False
      with p show ?thesis by (simp add: other otherB)
    qed
  qed
  from c1 c2 c3 show ?case by blast
qed

lemma removeTransactionHash_present:
  assumes "txn (getTransactionHashKey t) = Some (EncBlocks blocks)"
    and "map_of blocks (Hash blockIdentifier) \<noteq> None"
  shows "removeTransactionHash txn blockIdentifier t =
           Inr (txn(getTransactionHashKey t :=
                  (if AList.delete (Hash blockIdentifier) blocks = [] then None
                   else Some (EncBlocks (AList.delete (Hash blockIdentifier) blocks)))))"
  using assms
  by (auto simp: removeTransactionHash_def txn_Get_def txn_Set_def txn_Delete_def Let_def)

text \<open>What the loop of \<open>RemoveBlock\<close> over the transactions does where every entry is there.\<close>

lemma removeTransactionHashes_present:
  assumes "distinct (map (\<lambda>t. getTransactionHashKey (TransactionIdentifier t)) txns)"
    and "\<forall>t \<in> set txns. \<exists>blocks.
           txn (getTransactionHashKey (TransactionIdentifier t)) = Some (EncBlocks blocks)
           \<and> map_of blocks (Hash blockIdentifier) \<noteq> None"
  shows "removeTransactionHashes txn blockIdentifier txns =
           Inr (\<lambda>key. if key \<in> (\<lambda>t. getTransactionHashKey (TransactionIdentifier t)) ` set txns
                       then (if AList.delete (Hash blockIdentifier) (blocksAt txn key) = []
                             then None
                             else Some (EncBlocks (AList.delete (Hash blockIdentifier)
                                                     (blocksAt txn key))))
                       else txn key)"
  using assms
proof (induction txns arbitrary: txn)
  case Nil
  show ?case by simp
next
  case (Cons t ts)
  let ?k = "\<lambda>t. getTransactionHashKey (TransactionIdentifier t)"
  let ?h = "Hash blockIdentifier"
  let ?f = "\<lambda>blocks. if AList.delete ?h blocks = [] then None
                       else Some (EncBlocks (AList.delete ?h blocks))"
  from Cons.prems(2) obtain blocks where
    b: "txn (?k t) = Some (EncBlocks blocks)" and m: "map_of blocks ?h \<noteq> None"
    by auto
  let ?txn1 = "txn(?k t := ?f blocks)"
  have r1: "removeTransactionHash txn blockIdentifier (TransactionIdentifier t) = Inr ?txn1"
    using b m by (rule removeTransactionHash_present)
  from Cons.prems(1) have fresh: "?k t \<notin> ?k ` set ts" and d: "distinct (map ?k ts)"
    by simp_all
  have pre: "\<forall>u \<in> set ts. \<exists>blocks. ?txn1 (?k u) = Some (EncBlocks blocks)
               \<and> map_of blocks ?h \<noteq> None"
  proof
    fix u assume u: "u \<in> set ts"
    with fresh have "?k u \<noteq> ?k t" by (metis image_eqI)
    with Cons.prems(2) u show "\<exists>blocks. ?txn1 (?k u) = Some (EncBlocks blocks)
               \<and> map_of blocks ?h \<noteq> None"
      by simp
  qed
  have r2: "removeTransactionHashes ?txn1 blockIdentifier ts =
              Inr (\<lambda>key. if key \<in> ?k ` set ts then ?f (blocksAt ?txn1 key) else ?txn1 key)"
    by (rule Cons.IH [OF d pre])
  have "(\<lambda>key. if key \<in> ?k ` set ts then ?f (blocksAt ?txn1 key) else ?txn1 key)
      = (\<lambda>key. if key \<in> ?k ` set (t # ts) then ?f (blocksAt txn key) else txn key)"
  proof
    fix key
    show "(if key \<in> ?k ` set ts then ?f (blocksAt ?txn1 key) else ?txn1 key)
        = (if key \<in> ?k ` set (t # ts) then ?f (blocksAt txn key) else txn key)"
    proof (cases "key = ?k t")
      case True
      with fresh b show ?thesis by (simp add: blocksAt_def)
    next
      case False
      then show ?thesis by (simp add: blocksAt_def)
    qed
  qed
  with r1 r2 show ?case by simp
qed

text \<open>Removing the entries that were just stored gives the transaction back.\<close>

lemma removeTransactionHashes_storeTransactionHashes:
  assumes "storeTransactionHashes txn blockIdentifier txns = Inr txn'"
    and "\<forall>t \<in> set txns. txn (getTransactionHashKey (TransactionIdentifier t)) \<noteq> Some (EncBlocks [])"
  shows "removeTransactionHashes txn' blockIdentifier txns = Inr txn"
proof -
  let ?k = "\<lambda>t. getTransactionHashKey (TransactionIdentifier t)"
  let ?h = "Hash blockIdentifier"
  let ?e = "(Hash blockIdentifier, Index blockIdentifier)"
  from storeTransactionHashes_Inr [OF assms(1)] have
    d: "distinct (map ?k txns)"
    and f: "\<forall>t \<in> set txns. holdsBlocks txn (?k t) \<and> map_of (blocksAt txn (?k t)) ?h = None"
    and p: "\<forall>key. txn' key =
              (if key \<in> ?k ` set txns then Some (EncBlocks (blocksAt txn key @ [?e]))
               else txn key)"
    by simp_all
  have pre: "\<forall>t \<in> set txns. \<exists>blocks. txn' (?k t) = Some (EncBlocks blocks)
               \<and> map_of blocks ?h \<noteq> None"
  proof
    fix t assume "t \<in> set txns"
    with p have "txn' (?k t) = Some (EncBlocks (blocksAt txn (?k t) @ [?e]))" by simp
    moreover have "map_of (blocksAt txn (?k t) @ [?e]) ?h \<noteq> None" by (rule map_of_snoc_same)
    ultimately show "\<exists>blocks. txn' (?k t) = Some (EncBlocks blocks) \<and> map_of blocks ?h \<noteq> None"
      by blast
  qed
  have "(\<lambda>key. if key \<in> ?k ` set txns
               then (if AList.delete ?h (blocksAt txn' key) = [] then None
                     else Some (EncBlocks (AList.delete ?h (blocksAt txn' key))))
               else txn' key) = txn"
  proof
    fix key
    show "(if key \<in> ?k ` set txns
               then (if AList.delete ?h (blocksAt txn' key) = [] then None
                     else Some (EncBlocks (AList.delete ?h (blocksAt txn' key))))
               else txn' key) = txn key"
    proof (cases "key \<in> ?k ` set txns")
      case False
      with p show ?thesis by simp
    next
      case True
      then obtain t where t: "t \<in> set txns" and key: "key = ?k t" by auto
      from f t key have hb: "holdsBlocks txn key" and n: "map_of (blocksAt txn key) ?h = None"
        by simp_all
      from assms(2) t key have ne: "txn key \<noteq> Some (EncBlocks [])" by simp
      from p True have "blocksAt txn' key = blocksAt txn key @ [?e]"
        by (simp add: blocksAt_def)
      with n have del: "AList.delete ?h (blocksAt txn' key) = blocksAt txn key"
        by (simp add: delete_fresh)
      show ?thesis
      proof (cases "txn key")
        case None
        with True del show ?thesis by (simp add: blocksAt_def)
      next
        case (Some val)
        with hb obtain blocks where "val = EncBlocks blocks"
          by (cases val) (simp_all add: holdsBlocks_def)
        with Some ne True del show ?thesis by (simp add: blocksAt_def)
      qed
    qed
  qed
  with removeTransactionHashes_present [OF d pre] show ?thesis by simp
qed

subsection \<open>What \<open>AddBlock\<close> stages\<close>

lemma AddBlock_staged_duplicate_hash:
  assumes "db (getBlockHashKey (BlockIdentifier block)) \<noteq> None"
  shows "AddBlock_staged db block =
           Inl (Wrap (Wrap ErrDuplicateBlockHash ''%w: duplicate block hash %s found'')
                  ''%w: unable to store block hash'')"
  using assms
  by (auto simp: AddBlock_staged_def storeBlockHash_def StoreHeadBlockIdentifier_def
        txn_Get_def txn_Set_def)

lemma AddBlock_staged_fresh_hash:
  assumes "db (getBlockHashKey (BlockIdentifier block)) = None"
  shows "AddBlock_staged db block =
           storeTransactionHashes
             (db(getBlockKey (BlockIdentifier block) \<mapsto> EncBlock block,
                 getHeadBlockKey \<mapsto> EncBlockIdentifier (BlockIdentifier block),
                 getBlockHashKey (BlockIdentifier block) \<mapsto> EncEmpty))
             (BlockIdentifier block) (Transactions block)"
  using assms
  by (simp add: AddBlock_staged_def storeBlockHash_def StoreHeadBlockIdentifier_def
        txn_Get_def txn_Set_def)

lemma AddBlock_staged_Inr:
  assumes "AddBlock_staged db block = Inr txn"
  shows "db (getBlockHashKey (BlockIdentifier block)) = None
       \<and> storeTransactionHashes
             (db(getBlockKey (BlockIdentifier block) \<mapsto> EncBlock block,
                 getHeadBlockKey \<mapsto> EncBlockIdentifier (BlockIdentifier block),
                 getBlockHashKey (BlockIdentifier block) \<mapsto> EncEmpty))
             (BlockIdentifier block) (Transactions block) = Inr txn"
proof (cases "db (getBlockHashKey (BlockIdentifier block))")
  case None
  with assms show ?thesis by (simp add: AddBlock_staged_fresh_hash)
next
  case (Some v)
  then have "db (getBlockHashKey (BlockIdentifier block)) \<noteq> None" by simp
  with AddBlock_staged_duplicate_hash [of db block] assms show ?thesis by simp
qed

lemma callWorkersAndCommit_no_workers:
  assumes "workers b = []"
  shows "callWorkersAndCommit b block txn adding (db, world) =
           (case commitFault b txn of
              Some err \<Rightarrow> (Some err, db, world)
            | None \<Rightarrow> (None, txn, world))"
  using assms by (simp add: callWorkersAndCommit_def split: option.splits)

subsection \<open>Duplicate transaction hashes\<close>

lemma storeTransactionHashes_Inl:
  assumes "storeTransactionHashes txn blockIdentifier txns = Inl err"
    and "\<forall>t \<in> set txns. holdsBlocks txn (getTransactionHashKey (TransactionIdentifier t))"
  shows "errors_Is err ErrDuplicateTransactionHash"
  using assms
proof (induction txns arbitrary: txn)
  case Nil
  then show ?case by simp
next
  case (Cons t ts)
  show ?case
  proof (cases "storeTransactionHash txn blockIdentifier (TransactionIdentifier t)")
    case (Inl e)
    with Cons.prems(2) have "errors_Is e ErrDuplicateTransactionHash"
      by (simp add: storeTransactionHash_Inl)
    with Inl Cons.prems(1) show ?thesis by auto
  next
    case (Inr txn1)
    from storeTransactionHash_Inr [OF Inr] obtain v where
      t1: "txn1 = txn(getTransactionHashKey (TransactionIdentifier t) \<mapsto> EncBlocks v)"
      by blast
    have "\<forall>u \<in> set ts. holdsBlocks txn1 (getTransactionHashKey (TransactionIdentifier u))"
      using Cons.prems(2) by (simp add: t1 holdsBlocks_def)
    moreover from Inr Cons.prems(1) have "storeTransactionHashes txn1 blockIdentifier ts = Inl err"
      by simp
    ultimately show ?thesis by (rule Cons.IH [rotated])
  qed
qed

lemma storeTransactionHashes_distinct:
  assumes "storeTransactionHashes txn blockIdentifier txns = Inr txn'"
  shows "distinct (map (\<lambda>t. TxHash (TransactionIdentifier t)) txns)"
proof -
  from storeTransactionHashes_Inr [OF assms]
  have "distinct (map (\<lambda>t. getTransactionHashKey (TransactionIdentifier t)) txns)" by simp
  then show ?thesis
    by (auto simp: distinct_map inj_on_def getTransactionHashKey_def)
qed

text \<open>
  C6, as the code has it. For a block that contains two transactions of the same hash,
  \<open>AddBlock\<close> fails and leaves the database (the head pointer with it) and the outside
  world as they were, so such a block is never committed. The error is
  \<open>ErrDuplicateTransactionHash\<close> when the block's hash is not stored yet and the
  reverse-index keys of the block's transactions hold nothing or a mapping.
\<close>

theorem AddBlock_duplicate_transaction_hash:
  assumes "\<not> distinct (map (\<lambda>t. TxHash (TransactionIdentifier t)) (Transactions block))"
  shows "\<exists>err. AddBlock b block (db, world) = (Some err, db, world)
           \<and> (db (getBlockHashKey (BlockIdentifier block)) = None
              \<and> (\<forall>t \<in> set (Transactions block).
                    holdsBlocks db (getTransactionHashKey (TransactionIdentifier t)))
              \<longrightarrow> errors_Is err ErrDuplicateTransactionHash)"
proof (cases "AddBlock_staged db block")
  case (Inr txn)
  from AddBlock_staged_Inr [OF this] assms storeTransactionHashes_distinct
  show ?thesis by blast
next
  case (Inl err)
  have "db (getBlockHashKey (BlockIdentifier block)) = None
        \<and> (\<forall>t \<in> set (Transactions block).
              holdsBlocks db (getTransactionHashKey (TransactionIdentifier t)))
        \<longrightarrow> errors_Is err ErrDuplicateTransactionHash"
  proof
    let ?s = "db(getBlockKey (BlockIdentifier block) \<mapsto> EncBlock block,
                 getHeadBlockKey \<mapsto> EncBlockIdentifier (BlockIdentifier block),
                 getBlockHashKey (BlockIdentifier block) \<mapsto> EncEmpty)"
    assume a: "db (getBlockHashKey (BlockIdentifier block)) = None
        \<and> (\<forall>t \<in> set (Transactions block).
              holdsBlocks db (getTransactionHashKey (TransactionIdentifier t)))"
    with Inl have "storeTransactionHashes ?s (BlockIdentifier block) (Transactions block) = Inl err"
      by (simp add: AddBlock_staged_fresh_hash)
    moreover have "\<forall>t \<in> set (Transactions block).
                     holdsBlocks ?s (getTransactionHashKey (TransactionIdentifier t))"
      using a by (simp add: holdsBlocks_def)
    ultimately show "errors_Is err ErrDuplicateTransactionHash"
      by (rule storeTransactionHashes_Inl)
  qed
  with Inl show ?thesis by (simp add: AddBlock_unfold)
qed

lemmas run_defs = AddBlock_def RemoveBlock_def callWorkersAndCommit_def storeBlockHash_def
  storeTransactionHash_def removeTransactionHash_def GetBlock_def
  StoreHeadBlockIdentifier_def txn_Get_def txn_Set_def txn_Delete_def

theorem AddBlock_duplicate_transaction_hash_witness:
  "\<exists>err. AddBlock exampleStorage duplicateTxBlock (Map.empty, ()) = (Some err, Map.empty, ())
          \<and> errors_Is err ErrDuplicateTransactionHash"
  using AddBlock_duplicate_transaction_hash [of duplicateTxBlock exampleStorage Map.empty "()"]
  by (simp add: duplicateTxBlock_def holdsBlocks_def)

theorem AddBlock_duplicate_transaction_hash_counterexample:
  "AddBlock exampleStorage plainBlock4 (emptyDatabase, ()) = (None, plainBlock4Stored, ())
   \<and> TxHash (TransactionIdentifier (Transactions duplicateTxBlock ! 0))
       = TxHash (TransactionIdentifier (Transactions duplicateTxBlock ! 1))
   \<and> AddBlock exampleStorage duplicateTxBlock (plainBlock4Stored, ())
       = (Some (Wrap (Wrap ErrDuplicateBlockHash ''%w: duplicate block hash %s found'')
                  ''%w: unable to store block hash''),
          plainBlock4Stored, ())
   \<and> \<not> errors_Is (Wrap (Wrap ErrDuplicateBlockHash ''%w: duplicate block hash %s found'')
                      ''%w: unable to store block hash'')
           ErrDuplicateTransactionHash"
proof -
  have 1: "AddBlock exampleStorage plainBlock4 (emptyDatabase, ()) = (None, plainBlock4Stored, ())"
    by (simp add: run_defs key_defs exampleStorage_def plainBlock4_def emptyDatabase_def
          plainBlock4Stored_def)
  have 2: "AddBlock exampleStorage duplicateTxBlock (plainBlock4Stored, ())
       = (Some (Wrap (Wrap ErrDuplicateBlockHash ''%w: duplicate block hash %s found'')
                  ''%w: unable to store block hash''),
          plainBlock4Stored, ())"
    by (simp add: run_defs key_defs exampleStorage_def duplicateTxBlock_def
          plainBlock4Stored_def)
  from 1 2 show ?thesis by (simp add: duplicateTxBlock_def)
qed

subsection \<open>Adding a block and removing it again\<close>

lemma AddBlock_RemoveBlock_roundtrip:
  assumes nw: "workers b = []"
    and add: "AddBlock b block (db, world) = (None, db', world')"
    and head: "db getHeadBlockKey = Some (EncBlockIdentifier (ParentBlockIdentifier block))"
    and fresh: "db (getBlockKey (BlockIdentifier block)) = None"
    and nonempty: "\<forall>t \<in> set (Transactions block).
                     db (getTransactionHashKey (TransactionIdentifier t)) \<noteq> Some (EncBlocks [])"
    and commit: "commitFault b db = None"
  shows "RemoveBlock b (BlockIdentifier block) (db', world') = (None, db, world')"
proof -
  let ?id = "BlockIdentifier block"
  let ?s = "db(getBlockKey ?id \<mapsto> EncBlock block,
               getHeadBlockKey \<mapsto> EncBlockIdentifier ?id,
               getBlockHashKey ?id \<mapsto> EncEmpty)"
  from add nw obtain txn where staged: "AddBlock_staged db block = Inr txn"
    and res: "db' = txn" "world' = world"
    by (auto simp: AddBlock_unfold callWorkersAndCommit_no_workers
             split: sum.splits option.splits)
  from AddBlock_staged_Inr [OF staged] res have
    nohash: "db (getBlockHashKey ?id) = None"
    and stored: "storeTransactionHashes ?s ?id (Transactions block) = Inr db'"
    by simp_all
  from storeTransactionHashes_Inr [OF stored] have
    "db' (getBlockKey ?id) = ?s (getBlockKey ?id)"
    by auto
  then have get: "GetBlock db' ?id = Inr block"
    by (simp add: GetBlock_def txn_Get_def)
  have "\<forall>t \<in> set (Transactions block).
          ?s (getTransactionHashKey (TransactionIdentifier t)) \<noteq> Some (EncBlocks [])"
    using nonempty by simp
  with stored have removed: "removeTransactionHashes db' ?id (Transactions block) = Inr ?s"
    by (rule removeTransactionHashes_storeTransactionHashes)
  have "StoreHeadBlockIdentifier
          (txn_Delete (txn_Delete ?s (getBlockHashKey ?id)) (getBlockKey ?id))
          (ParentBlockIdentifier block) = db"
  proof
    fix key
    show "StoreHeadBlockIdentifier
            (txn_Delete (txn_Delete ?s (getBlockHashKey ?id)) (getBlockKey ?id))
            (ParentBlockIdentifier block) key = db key"
      using head fresh nohash
      by (simp add: StoreHeadBlockIdentifier_def txn_Delete_def txn_Set_def)
  qed
  with get removed have "RemoveBlock_staged db' ?id = Inr (block, db)"
    by (simp add: RemoveBlock_staged_def)
  with nw commit show ?thesis
    by (simp add: RemoveBlock_unfold callWorkersAndCommit_no_workers)
qed

subsection \<open>The invariant of the block index\<close>

lemma removeTransactionHash_changes:
  assumes "removeTransactionHash txn blockIdentifier t = Inr txn'"
  shows "txn' key = txn key
       \<or> (key = getTransactionHashKey t \<and> txn' key \<noteq> Some (EncBlocks []))"
proof (cases "txn (getTransactionHashKey t)")
  case None
  with assms show ?thesis by (simp add: removeTransactionHash_def txn_Get_def)
next
  case (Some val)
  with assms obtain blocks where "val = EncBlocks blocks"
    by (cases val) (simp_all add: removeTransactionHash_def txn_Get_def)
  with assms Some show ?thesis
    by (auto simp: removeTransactionHash_def txn_Get_def txn_Set_def txn_Delete_def Let_def
             split: if_splits)
qed

lemma removeTransactionHashes_changes:
  assumes "removeTransactionHashes txn blockIdentifier txns = Inr txn'"
  shows "txn' key = txn key
       \<or> ((\<exists>t. key = getTransactionHashKey t) \<and> txn' key \<noteq> Some (EncBlocks []))"
  using assms
proof (induction txns arbitrary: txn)
  case Nil
  then show ?case by simp
next
  case (Cons t ts)
  from Cons.prems obtain txn1 where
    r1: "removeTransactionHash txn blockIdentifier (TransactionIdentifier t) = Inr txn1"
    and r2: "removeTransactionHashes txn1 blockIdentifier ts = Inr txn'"
    by (auto split: sum.splits)
  from removeTransactionHash_changes [OF r1, of key] Cons.IH [OF r2]
  show ?case by metis
qed

lemma storeTransactionHashes_changes:
  assumes "storeTransactionHashes txn blockIdentifier txns = Inr txn'"
  shows "txn' key = txn key
       \<or> ((\<exists>t. key = getTransactionHashKey t) \<and> txn' key \<noteq> Some (EncBlocks []))"
  using storeTransactionHashes_Inr [OF assms] by auto

lemma storeTransactionHashes_frame:
  assumes "storeTransactionHashes txn blockIdentifier txns = Inr txn'"
    and "\<And>t. key \<noteq> getTransactionHashKey t"
  shows "txn' key = txn key"
  using storeTransactionHashes_changes [OF assms(1), of key] assms(2) by blast

lemma removeTransactionHashes_frame:
  assumes "removeTransactionHashes txn blockIdentifier txns = Inr txn'"
    and "\<And>t. key \<noteq> getTransactionHashKey t"
  shows "txn' key = txn key"
  using removeTransactionHashes_changes [OF assms(1), of key] assms(2) by blast

lemma sameBlockIndex_refl [simp]: "sameBlockIndex a a"
  by (simp add: sameBlockIndex_def)

lemma sameBlockIndex_trans: "sameBlockIndex a b \<Longrightarrow> sameBlockIndex b c \<Longrightarrow> sameBlockIndex a c"
  by (simp add: sameBlockIndex_def)

lemma blockIndexInvariant_cong:
  assumes "sameBlockIndex a b"
  shows "blockIndexInvariant a = blockIndexInvariant b"
  using assms by (simp add: blockIndexInvariant_def sameBlockIndex_def)

lemma callWorkers_keepsBlockIndex:
  assumes "list_all keepsBlockIndex ws"
    and "callWorkers ws adding block txn = Inr (txn', cws)"
  shows "sameBlockIndex txn' txn"
  using assms
proof (induction ws arbitrary: txn cws)
  case Nil
  then show ?case by simp
next
  case (Cons w ws)
  from Cons.prems(2) obtain txn1 cw cws1 where
    c1: "(if adding then AddingBlock w block txn else RemovingBlock w block txn) = Inr (txn1, cw)"
    and c2: "callWorkers ws adding block txn1 = Inr (txn', cws1)"
    by (auto split: sum.splits)
  from Cons.prems(1) have k: "keepsBlockIndex w" and ks: "list_all keepsBlockIndex ws"
    by simp_all
  from c1 have "AddingBlock w block txn = Inr (txn1, cw) \<or> RemovingBlock w block txn = Inr (txn1, cw)"
    by (auto split: if_splits)
  with k have "sameBlockIndex txn1 txn"
    unfolding keepsBlockIndex_def by blast
  with Cons.IH [OF ks c2] show ?case by (rule sameBlockIndex_trans)
qed

lemma blockIndexInvariant_AddBlock_staged:
  assumes inv: "blockIndexInvariant db"
    and staged: "AddBlock_staged db block = Inr txn"
  shows "blockIndexInvariant txn"
proof -
  let ?id = "BlockIdentifier block"
  let ?s = "db(getBlockKey ?id \<mapsto> EncBlock block,
               getHeadBlockKey \<mapsto> EncBlockIdentifier ?id,
               getBlockHashKey ?id \<mapsto> EncEmpty)"
  from AddBlock_staged_Inr [OF staged] have
    nohash: "db (getBlockHashKey ?id) = None"
    and stored: "storeTransactionHashes ?s ?id (Transactions block) = Inr txn"
    by simp_all
  have bk: "txn (getBlockKey i) = (if i = ?id then Some (EncBlock block) else db (getBlockKey i))"
    for i
    using storeTransactionHashes_frame [OF stored, of "getBlockKey i"]
    by (simp add: getBlockKey_eq)
  have hk: "txn (getBlockHashKey i)
              = (if Hash i = Hash ?id then Some EncEmpty else db (getBlockHashKey i))"
    for i
    using storeTransactionHashes_frame [OF stored, of "getBlockHashKey i"]
    by (simp add: getBlockHashKey_eq)
  have tk: "txn (getTransactionHashKey t) = db (getTransactionHashKey t)
              \<or> txn (getTransactionHashKey t) \<noteq> Some (EncBlocks [])"
    for t
    using storeTransactionHashes_changes [OF stored, of "getTransactionHashKey t"] by auto
  from inv nohash have none: "\<And>i. Hash i = Hash ?id \<Longrightarrow> db (getBlockKey i) = None"
    unfolding blockIndexInvariant_def by (metis getBlockHashKey_eq)
  have 1: "\<forall>i. txn (getBlockKey i) \<noteq> None \<longrightarrow>
             txn (getBlockHashKey i) \<noteq> None
             \<and> (\<exists>blk. txn (getBlockKey i) = Some (EncBlock blk) \<and> BlockIdentifier blk = i)"
    using inv unfolding blockIndexInvariant_def by (auto simp: bk hk)
  have 2: "\<forall>i i'. txn (getBlockKey i) \<noteq> None \<and> txn (getBlockKey i') \<noteq> None \<and> Hash i = Hash i'
             \<longrightarrow> i = i'"
  proof (intro allI impI)
    fix i i'
    assume a: "txn (getBlockKey i) \<noteq> None \<and> txn (getBlockKey i') \<noteq> None \<and> Hash i = Hash i'"
    show "i = i'"
    proof (cases "Hash i = Hash ?id")
      case True
      with a have True': "Hash i' = Hash ?id" by simp
      have "i = ?id"
      proof (rule ccontr)
        assume "i \<noteq> ?id"
        with bk [of i] have "txn (getBlockKey i) = db (getBlockKey i)" by simp
        with none [OF True] a show False by simp
      qed
      moreover have "i' = ?id"
      proof (rule ccontr)
        assume "i' \<noteq> ?id"
        with bk [of i'] have "txn (getBlockKey i') = db (getBlockKey i')" by simp
        with none [OF True'] a show False by simp
      qed
      ultimately show ?thesis by simp
    next
      case False
      with a have "db (getBlockKey i) \<noteq> None" "db (getBlockKey i') \<noteq> None"
        by (auto simp: bk split: if_splits)
      with a inv show ?thesis unfolding blockIndexInvariant_def by blast
    qed
  qed
  have 3: "\<forall>t. txn (getTransactionHashKey t) \<noteq> Some (EncBlocks [])"
    using inv tk unfolding blockIndexInvariant_def by metis
  from 1 2 3 show ?thesis unfolding blockIndexInvariant_def by blast
qed

lemma blockIndexInvariant_RemoveBlock_staged:
  assumes inv: "blockIndexInvariant db"
    and staged: "RemoveBlock_staged db blockIdentifier = Inr (block, txn)"
  shows "blockIndexInvariant txn"
proof -
  from staged obtain txn1 where
    get: "GetBlock db blockIdentifier = Inr block"
    and removed: "removeTransactionHashes db blockIdentifier (Transactions block) = Inr txn1"
    and txn: "txn = StoreHeadBlockIdentifier
                      (txn_Delete (txn_Delete txn1 (getBlockHashKey blockIdentifier))
                         (getBlockKey blockIdentifier))
                      (ParentBlockIdentifier block)"
    by (auto simp: RemoveBlock_staged_def split: sum.splits)
  from get have there: "db (getBlockKey blockIdentifier) \<noteq> None"
    by (auto simp: GetBlock_def txn_Get_def split: option.splits)
  have bk: "txn (getBlockKey i) = (if i = blockIdentifier then None else db (getBlockKey i))"
    for i
    using removeTransactionHashes_frame [OF removed, of "getBlockKey i"]
    by (simp add: txn StoreHeadBlockIdentifier_def txn_Delete_def txn_Set_def getBlockKey_eq)
  have hk: "txn (getBlockHashKey i)
              = (if Hash i = Hash blockIdentifier then None else db (getBlockHashKey i))"
    for i
    using removeTransactionHashes_frame [OF removed, of "getBlockHashKey i"]
    by (simp add: txn StoreHeadBlockIdentifier_def txn_Delete_def txn_Set_def
          getBlockHashKey_eq)
  have tk: "txn (getTransactionHashKey t) = db (getTransactionHashKey t)
              \<or> txn (getTransactionHashKey t) \<noteq> Some (EncBlocks [])"
    for t
    using removeTransactionHashes_changes [OF removed, of "getTransactionHashKey t"]
    by (auto simp: txn StoreHeadBlockIdentifier_def txn_Delete_def txn_Set_def)
  have only: "\<And>i. db (getBlockKey i) \<noteq> None \<Longrightarrow> Hash i = Hash blockIdentifier \<Longrightarrow> i = blockIdentifier"
    using inv there unfolding blockIndexInvariant_def by blast
  have 1: "\<forall>i. txn (getBlockKey i) \<noteq> None \<longrightarrow>
             txn (getBlockHashKey i) \<noteq> None
             \<and> (\<exists>blk. txn (getBlockKey i) = Some (EncBlock blk) \<and> BlockIdentifier blk = i)"
  proof (intro allI impI)
    fix i assume a: "txn (getBlockKey i) \<noteq> None"
    then have ne: "i \<noteq> blockIdentifier" and d: "db (getBlockKey i) \<noteq> None"
      by (auto simp: bk split: if_splits)
    with only have "Hash i \<noteq> Hash blockIdentifier" by blast
    with inv d ne show "txn (getBlockHashKey i) \<noteq> None
             \<and> (\<exists>blk. txn (getBlockKey i) = Some (EncBlock blk) \<and> BlockIdentifier blk = i)"
      unfolding blockIndexInvariant_def by (simp add: bk hk)
  qed
  have 2: "\<forall>i i'. txn (getBlockKey i) \<noteq> None \<and> txn (getBlockKey i') \<noteq> None \<and> Hash i = Hash i'
             \<longrightarrow> i = i'"
  proof (intro allI impI)
    fix i i'
    assume a: "txn (getBlockKey i) \<noteq> None \<and> txn (getBlockKey i') \<noteq> None \<and> Hash i = Hash i'"
    then have "db (getBlockKey i) \<noteq> None" "db (getBlockKey i') \<noteq> None"
      by (auto simp: bk split: if_splits)
    with a inv show "i = i'" unfolding blockIndexInvariant_def by blast
  qed
  have 3: "\<forall>t. txn (getTransactionHashKey t) \<noteq> Some (EncBlocks [])"
    using inv tk unfolding blockIndexInvariant_def by metis
  from 1 2 3 show ?thesis unfolding blockIndexInvariant_def by blast
qed

lemma blockIndexInvariant_callWorkersAndCommit:
  assumes "blockIndexInvariant db" and "blockIndexInvariant txn"
    and "list_all keepsBlockIndex (workers b)"
    and "callWorkersAndCommit b block txn adding (db, world) = (r, db', world')"
  shows "blockIndexInvariant db'"
proof -
  from callWorkersAndCommit_outcome [OF assms(4)] consider
    "db' = db" | cws where "callWorkers (workers b) adding block txn = Inr (db', cws)"
    by blast
  then show ?thesis
  proof cases
    case 1
    with assms(1) show ?thesis by simp
  next
    case 2
    from callWorkers_keepsBlockIndex [OF assms(3) 2]
    have "blockIndexInvariant db' = blockIndexInvariant txn"
      by (rule blockIndexInvariant_cong)
    with assms(2) show ?thesis by simp
  qed
qed

lemma reachable_blockIndexInvariant:
  assumes "list_all keepsBlockIndex (workers b)" and "reachable b db"
  shows "blockIndexInvariant db"
  using assms(2)
proof (induction rule: reachable.induct)
  case reachable_empty
  show ?case by (simp add: blockIndexInvariant_def)
next
  case (reachable_AddBlock db block world r db' world')
  show ?case
  proof (cases "AddBlock_staged db block")
    case (Inl err)
    with reachable_AddBlock show ?thesis by (simp add: AddBlock_unfold)
  next
    case (Inr txn)
    with reachable_AddBlock have
      "callWorkersAndCommit b block txn True (db, world) = (r, db', world')"
      by (simp add: AddBlock_unfold)
    with reachable_AddBlock.IH blockIndexInvariant_AddBlock_staged [OF reachable_AddBlock.IH Inr]
      assms(1) show ?thesis
      by (rule blockIndexInvariant_callWorkersAndCommit)
  qed
next
  case (reachable_RemoveBlock db blockIdentifier world r db' world')
  show ?case
  proof (cases "RemoveBlock_staged db blockIdentifier")
    case (Inl err)
    with reachable_RemoveBlock show ?thesis by (simp add: RemoveBlock_unfold)
  next
    case (Inr res)
    obtain block txn where res: "res = (block, txn)" by (cases res)
    with Inr reachable_RemoveBlock have
      "callWorkersAndCommit b block txn False (db, world) = (r, db', world')"
      by (simp add: RemoveBlock_unfold)
    with reachable_RemoveBlock.IH
      blockIndexInvariant_RemoveBlock_staged [OF reachable_RemoveBlock.IH Inr [unfolded res]]
      assms(1) show ?thesis
      by (rule blockIndexInvariant_callWorkersAndCommit)
  qed
qed

text \<open>A stored block is stored under its own identifier.\<close>

lemma decode_Block_Inr: "decode_Block val = Inr block \<longleftrightarrow> val = EncBlock block"
  by (cases val) auto

lemma GetBlock_stored:
  "GetBlock db i = Inr block \<longleftrightarrow> db (getBlockKey i) = Some (EncBlock block)"
  by (auto simp: GetBlock_def txn_Get_def decode_Block_Inr split: option.splits)

lemma GetBlock_own:
  assumes "blockIndexInvariant db" and "GetBlock db i = Inr block"
  shows "BlockIdentifier block = i"
proof -
  from assms(2) have s: "db (getBlockKey i) = Some (EncBlock block)"
    by (simp add: GetBlock_stored)
  then have "db (getBlockKey i) \<noteq> None" by simp
  with assms(1) obtain blk where
    "db (getBlockKey i) = Some (EncBlock blk)" and "BlockIdentifier blk = i"
    unfolding blockIndexInvariant_def by blast
  with s show ?thesis by simp
qed

lemma callWorkers_keepsHeadBlock:
  assumes "list_all keepsHeadBlock ws"
    and "callWorkers ws adding block txn = Inr (txn', cws)"
  shows "txn' getHeadBlockKey = txn getHeadBlockKey"
  using assms
proof (induction ws arbitrary: txn cws)
  case Nil
  then show ?case by simp
next
  case (Cons w ws)
  from Cons.prems(2) obtain txn1 cw cws1 where
    c1: "(if adding then AddingBlock w block txn else RemovingBlock w block txn) = Inr (txn1, cw)"
    and c2: "callWorkers ws adding block txn1 = Inr (txn', cws1)"
    by (auto split: sum.splits)
  from Cons.prems(1) have k: "keepsHeadBlock w" and ks: "list_all keepsHeadBlock ws"
    by simp_all
  from c1 have "AddingBlock w block txn = Inr (txn1, cw) \<or> RemovingBlock w block txn = Inr (txn1, cw)"
    by (auto split: if_splits)
  with k have "txn1 getHeadBlockKey = txn getHeadBlockKey"
    unfolding keepsHeadBlock_def by blast
  with Cons.IH [OF ks c2] show ?case by simp
qed

text \<open>What \<open>AddBlock\<close> and \<open>RemoveBlock\<close> do to the block records.\<close>

lemma AddBlock_staged_block_keys:
  assumes "AddBlock_staged db block = Inr txn"
  shows "txn (getBlockKey i)
           = (if i = BlockIdentifier block then Some (EncBlock block) else db (getBlockKey i))"
proof -
  from AddBlock_staged_Inr [OF assms] have
    stored: "storeTransactionHashes
               (db(getBlockKey (BlockIdentifier block) \<mapsto> EncBlock block,
                   getHeadBlockKey \<mapsto> EncBlockIdentifier (BlockIdentifier block),
                   getBlockHashKey (BlockIdentifier block) \<mapsto> EncEmpty))
               (BlockIdentifier block) (Transactions block) = Inr txn"
    by simp
  show ?thesis
    using storeTransactionHashes_frame [OF stored, of "getBlockKey i"]
    by (simp add: getBlockKey_eq)
qed

lemma RemoveBlock_staged_block_keys:
  assumes "RemoveBlock_staged db blockIdentifier = Inr (block, txn)"
  shows "db (getBlockKey blockIdentifier) \<noteq> None
       \<and> txn (getBlockKey i) = (if i = blockIdentifier then None else db (getBlockKey i))"
proof -
  from assms obtain txn1 where
    get: "GetBlock db blockIdentifier = Inr block"
    and removed: "removeTransactionHashes db blockIdentifier (Transactions block) = Inr txn1"
    and txn: "txn = StoreHeadBlockIdentifier
                      (txn_Delete (txn_Delete txn1 (getBlockHashKey blockIdentifier))
                         (getBlockKey blockIdentifier))
                      (ParentBlockIdentifier block)"
    by (auto simp: RemoveBlock_staged_def split: sum.splits)
  from get have "db (getBlockKey blockIdentifier) \<noteq> None"
    by (auto simp: GetBlock_def txn_Get_def split: option.splits)
  moreover have "txn (getBlockKey i) = (if i = blockIdentifier then None else db (getBlockKey i))"
    using removeTransactionHashes_frame [OF removed, of "getBlockKey i"]
    by (simp add: txn StoreHeadBlockIdentifier_def txn_Delete_def txn_Set_def getBlockKey_eq)
  ultimately show ?thesis by simp
qed

lemma AddBlock_block_keys:
  assumes "list_all keepsBlockIndex (workers b)"
    and "AddBlock b block (db, world) = (r, db', world')"
  shows "(r \<noteq> None \<and> db' = db)
       \<or> (\<forall>i. db' (getBlockKey i)
                = (if i = BlockIdentifier block then Some (EncBlock block)
                   else db (getBlockKey i)))"
proof (cases "AddBlock_staged db block")
  case (Inl err)
  with assms(2) show ?thesis by (auto simp: AddBlock_unfold)
next
  case (Inr txn)
  with assms(2) have "callWorkersAndCommit b block txn True (db, world) = (r, db', world')"
    by (simp add: AddBlock_unfold)
  from callWorkersAndCommit_outcome [OF this] consider
    "r \<noteq> None \<and> db' = db" | cws where "callWorkers (workers b) True block txn = Inr (db', cws)"
    by blast
  then show ?thesis
  proof cases
    case 1
    then show ?thesis by simp
  next
    case 2
    from callWorkers_keepsBlockIndex [OF assms(1) 2] have "sameBlockIndex db' txn" .
    then have "\<forall>i. db' (getBlockKey i) = txn (getBlockKey i)"
      by (simp add: sameBlockIndex_def)
    then show ?thesis by (simp add: AddBlock_staged_block_keys [OF Inr])
  qed
qed

lemma RemoveBlock_block_keys:
  assumes "list_all keepsBlockIndex (workers b)"
    and "RemoveBlock b blockIdentifier (db, world) = (r, db', world')"
  shows "(r \<noteq> None \<and> db' = db)
       \<or> (db (getBlockKey blockIdentifier) \<noteq> None
          \<and> (\<forall>i. db' (getBlockKey i)
                   = (if i = blockIdentifier then None else db (getBlockKey i))))"
proof (cases "RemoveBlock_staged db blockIdentifier")
  case (Inl err)
  with assms(2) show ?thesis by (auto simp: RemoveBlock_unfold)
next
  case (Inr res)
  obtain block txn where res: "res = (block, txn)" by (cases res)
  note staged = Inr [unfolded res]
  from staged assms(2) have
    "callWorkersAndCommit b block txn False (db, world) = (r, db', world')"
    by (simp add: RemoveBlock_unfold)
  from callWorkersAndCommit_outcome [OF this] consider
    "r \<noteq> None \<and> db' = db" | cws where "callWorkers (workers b) False block txn = Inr (db', cws)"
    by blast
  then show ?thesis
  proof cases
    case 1
    then show ?thesis by simp
  next
    case 2
    from callWorkers_keepsBlockIndex [OF assms(1) 2] have "sameBlockIndex db' txn" .
    then have "\<forall>i. db' (getBlockKey i) = txn (getBlockKey i)"
      by (simp add: sameBlockIndex_def)
    with RemoveBlock_staged_block_keys [OF staged] show ?thesis by simp
  qed
qed



lemma reachable_finite_blocks:
  assumes "list_all keepsBlockIndex (workers b)" and "reachable b db"
  shows "finite {i. db (getBlockKey i) \<noteq> None}"
  using assms(2)
proof (induction rule: reachable.induct)
  case reachable_empty
  show ?case by simp
next
  case (reachable_AddBlock db block world r db' world')
  from AddBlock_block_keys [OF assms(1) reachable_AddBlock(2)]
  have "{i. db' (getBlockKey i) \<noteq> None} \<subseteq> insert (BlockIdentifier block) {i. db (getBlockKey i) \<noteq> None}"
    by (auto split: if_splits)
  moreover from reachable_AddBlock.IH
  have "finite (insert (BlockIdentifier block) {i. db (getBlockKey i) \<noteq> None})" by simp
  ultimately show ?case by (rule finite_subset)
next
  case (reachable_RemoveBlock db blockIdentifier world r db' world')
  from RemoveBlock_block_keys [OF assms(1) reachable_RemoveBlock(2)]
  have "{i. db' (getBlockKey i) \<noteq> None} \<subseteq> {i. db (getBlockKey i) \<noteq> None}"
    by (auto split: if_splits)
  from this reachable_RemoveBlock.IH show ?case by (rule finite_subset)
qed

subsection \<open>Removing a block that was just added\<close>

lemma removeTransactionHash_agree:
  assumes "removeTransactionHash a blockIdentifier t = Inr a'"
    and "c (getTransactionHashKey t) = a (getTransactionHashKey t)"
  shows "removeTransactionHash c blockIdentifier t
           = Inr (c(getTransactionHashKey t := a' (getTransactionHashKey t)))"
proof (cases "a (getTransactionHashKey t)")
  case None
  with assms show ?thesis by (simp add: removeTransactionHash_def txn_Get_def)
next
  case (Some val)
  with assms(1) obtain blocks where "val = EncBlocks blocks"
    by (cases val) (simp_all add: removeTransactionHash_def txn_Get_def)
  with assms Some show ?thesis
    by (auto simp: removeTransactionHash_def txn_Get_def txn_Set_def txn_Delete_def Let_def
             split: if_splits)
qed

lemma removeTransactionHashes_agree:
  assumes "removeTransactionHashes a blockIdentifier txns = Inr a'"
    and "\<forall>t. c (getTransactionHashKey t) = a (getTransactionHashKey t)"
  shows "\<exists>c'. removeTransactionHashes c blockIdentifier txns = Inr c'
            \<and> (\<forall>t. c' (getTransactionHashKey t) = a' (getTransactionHashKey t))
            \<and> (\<forall>key. (\<forall>t. key \<noteq> getTransactionHashKey t) \<longrightarrow> c' key = c key)"
  using assms
proof (induction txns arbitrary: a c)
  case Nil
  then show ?case by simp
next
  case (Cons t ts)
  let ?k = "getTransactionHashKey (TransactionIdentifier t)"
  from Cons.prems(1) obtain a1 where
    r1: "removeTransactionHash a blockIdentifier (TransactionIdentifier t) = Inr a1"
    and r2: "removeTransactionHashes a1 blockIdentifier ts = Inr a'"
    by (auto split: sum.splits)
  from Cons.prems(2) have "c ?k = a ?k" by simp
  with r1 have c1: "removeTransactionHash c blockIdentifier (TransactionIdentifier t)
                      = Inr (c(?k := a1 ?k))"
    by (rule removeTransactionHash_agree)
  have agree: "\<forall>u. (c(?k := a1 ?k)) (getTransactionHashKey u) = a1 (getTransactionHashKey u)"
  proof
    fix u
    from removeTransactionHash_changes [OF r1, of "getTransactionHashKey u"] Cons.prems(2)
    show "(c(?k := a1 ?k)) (getTransactionHashKey u) = a1 (getTransactionHashKey u)"
      by auto
  qed
  from Cons.IH [OF r2 agree] obtain c' where
    c2: "removeTransactionHashes (c(?k := a1 ?k)) blockIdentifier ts = Inr c'"
    and t: "\<forall>u. c' (getTransactionHashKey u) = a' (getTransactionHashKey u)"
    and o: "\<forall>key. (\<forall>u. key \<noteq> getTransactionHashKey u) \<longrightarrow> c' key = (c(?k := a1 ?k)) key"
    by blast
  from c1 c2 have "removeTransactionHashes c blockIdentifier (t # ts) = Inr c'" by simp
  moreover from o have "\<forall>key. (\<forall>u. key \<noteq> getTransactionHashKey u) \<longrightarrow> c' key = c key"
    by auto
  ultimately show ?case using t by blast
qed

lemma RemoveBlock_staged_after_AddBlock:
  assumes keep: "list_all keepsBlockIndex (workers b)"
    and inv: "blockIndexInvariant db"
    and add: "AddBlock b block (db, world) = (None, db', world')"
  shows "\<exists>txn. RemoveBlock_staged db' (BlockIdentifier block) = Inr (block, txn)
            \<and> sameBlockIndex txn db
            \<and> txn getHeadBlockKey = Some (EncBlockIdentifier (ParentBlockIdentifier block))
            \<and> (\<forall>key. key \<noteq> getHeadBlockKey
                       \<and> (\<forall>i. key \<noteq> getBlockKey i \<and> key \<noteq> getBlockHashKey i)
                       \<and> (\<forall>t. key \<noteq> getTransactionHashKey t) \<longrightarrow> txn key = db' key)"
proof -
  let ?id = "BlockIdentifier block"
  let ?s = "db(getBlockKey ?id \<mapsto> EncBlock block,
               getHeadBlockKey \<mapsto> EncBlockIdentifier ?id,
               getBlockHashKey ?id \<mapsto> EncEmpty)"
  from add obtain ta where staged: "AddBlock_staged db block = Inr ta"
    and run: "callWorkersAndCommit b block ta True (db, world) = (None, db', world')"
    by (auto simp: AddBlock_unfold split: sum.splits)
  from callWorkersAndCommit_outcome [OF run] obtain cws where
    "callWorkers (workers b) True block ta = Inr (db', cws)"
    by auto
  from callWorkers_keepsBlockIndex [OF keep this] have same: "sameBlockIndex db' ta" .
  from AddBlock_staged_Inr [OF staged] have
    nohash: "db (getBlockHashKey ?id) = None"
    and stored: "storeTransactionHashes ?s ?id (Transactions block) = Inr ta"
    by simp_all
  from inv nohash have fresh: "db (getBlockKey ?id) = None"
    unfolding blockIndexInvariant_def by blast
  from inv have "\<forall>t \<in> set (Transactions block).
          ?s (getTransactionHashKey (TransactionIdentifier t)) \<noteq> Some (EncBlocks [])"
    unfolding blockIndexInvariant_def by simp
  with stored have ra: "removeTransactionHashes ta ?id (Transactions block) = Inr ?s"
    by (rule removeTransactionHashes_storeTransactionHashes)
  from same have "\<forall>t. db' (getTransactionHashKey t) = ta (getTransactionHashKey t)"
    by (simp add: sameBlockIndex_def)
  from removeTransactionHashes_agree [OF ra this] obtain c' where
    rc: "removeTransactionHashes db' ?id (Transactions block) = Inr c'"
    and ct: "\<forall>t. c' (getTransactionHashKey t) = ?s (getTransactionHashKey t)"
    and co: "\<forall>key. (\<forall>t. key \<noteq> getTransactionHashKey t) \<longrightarrow> c' key = db' key"
    by blast
  let ?txn = "StoreHeadBlockIdentifier
                (txn_Delete (txn_Delete c' (getBlockHashKey ?id)) (getBlockKey ?id))
                (ParentBlockIdentifier block)"
  have "db' (getBlockKey ?id) = ta (getBlockKey ?id)"
    using same by (simp add: sameBlockIndex_def)
  with AddBlock_staged_block_keys [OF staged, of ?id] have get: "GetBlock db' ?id = Inr block"
    by (simp add: GetBlock_def txn_Get_def)
  with rc have 1: "RemoveBlock_staged db' ?id = Inr (block, ?txn)"
    by (simp add: RemoveBlock_staged_def)
  have bk: "?txn (getBlockKey i) = db (getBlockKey i)" for i
  proof (cases "i = ?id")
    case True
    with fresh show ?thesis
      by (simp add: StoreHeadBlockIdentifier_def txn_Delete_def txn_Set_def)
  next
    case False
    have "c' (getBlockKey i) = db' (getBlockKey i)" using co by simp
    also have "\<dots> = ta (getBlockKey i)" using same by (simp add: sameBlockIndex_def)
    also have "\<dots> = db (getBlockKey i)"
      using False by (simp add: AddBlock_staged_block_keys [OF staged])
    finally show ?thesis using False
      by (simp add: StoreHeadBlockIdentifier_def txn_Delete_def txn_Set_def getBlockKey_eq)
  qed
  have hk: "?txn (getBlockHashKey i) = db (getBlockHashKey i)" for i
  proof (cases "Hash i = Hash ?id")
    case True
    then have "getBlockHashKey i = getBlockHashKey ?id" by (simp add: getBlockHashKey_eq)
    with nohash show ?thesis
      by (simp add: StoreHeadBlockIdentifier_def txn_Delete_def txn_Set_def)
  next
    case False
    have "c' (getBlockHashKey i) = db' (getBlockHashKey i)" using co by simp
    also have "\<dots> = ta (getBlockHashKey i)" using same by (simp add: sameBlockIndex_def)
    also have "\<dots> = ?s (getBlockHashKey i)"
      using storeTransactionHashes_frame [OF stored, of "getBlockHashKey i"] by simp
    also have "\<dots> = db (getBlockHashKey i)"
      using False by (simp add: getBlockHashKey_eq)
    finally show ?thesis using False
      by (simp add: StoreHeadBlockIdentifier_def txn_Delete_def txn_Set_def getBlockHashKey_eq)
  qed
  have tk: "?txn (getTransactionHashKey t) = db (getTransactionHashKey t)" for t
    using ct by (simp add: StoreHeadBlockIdentifier_def txn_Delete_def txn_Set_def)
  from bk hk tk have 2: "sameBlockIndex ?txn db" by (simp add: sameBlockIndex_def)
  have 3: "?txn getHeadBlockKey = Some (EncBlockIdentifier (ParentBlockIdentifier block))"
    by (simp add: StoreHeadBlockIdentifier_def txn_Set_def)
  have 4: "\<forall>key. key \<noteq> getHeadBlockKey
                       \<and> (\<forall>i. key \<noteq> getBlockKey i \<and> key \<noteq> getBlockHashKey i)
                       \<and> (\<forall>t. key \<noteq> getTransactionHashKey t) \<longrightarrow> ?txn key = db' key"
    using co by (simp add: StoreHeadBlockIdentifier_def txn_Delete_def txn_Set_def)
  from 1 2 3 4 show ?thesis by blast
qed

subsection \<open>Duplicate block hashes\<close>

lemma example_marker_deleted:
  "AddBlock markerDeletingStorage plainBlock4 (emptyDatabase, ()) = (None, unmarkedStored, ())"
  "AddBlock markerDeletingStorage sameHashBlock (unmarkedStored, ()) = (None, twoOfOneHash, ())"
proof -
  have "fst (AddBlock markerDeletingStorage plainBlock4 (emptyDatabase, ())) = None"
    by (simp add: run_defs key_defs markerDeletingStorage_def markerDeletingWorker_def
          plainBlock4_def emptyDatabase_def txn_Delete_def)
  moreover have "fst (snd (AddBlock markerDeletingStorage plainBlock4 (emptyDatabase, ())))
                   = unmarkedStored"
    by (rule ext)
       (simp add: run_defs key_defs markerDeletingStorage_def markerDeletingWorker_def
          plainBlock4_def emptyDatabase_def txn_Delete_def unmarkedStored_def)
  ultimately show
    "AddBlock markerDeletingStorage plainBlock4 (emptyDatabase, ()) = (None, unmarkedStored, ())"
    by (cases "AddBlock markerDeletingStorage plainBlock4 (emptyDatabase, ())") simp
  have "fst (AddBlock markerDeletingStorage sameHashBlock (unmarkedStored, ())) = None"
    by (simp add: run_defs key_defs markerDeletingStorage_def markerDeletingWorker_def
          sameHashBlock_def unmarkedStored_def txn_Delete_def)
  moreover have "fst (snd (AddBlock markerDeletingStorage sameHashBlock (unmarkedStored, ())))
                   = twoOfOneHash"
    by (rule ext)
       (simp add: run_defs key_defs markerDeletingStorage_def markerDeletingWorker_def
          sameHashBlock_def unmarkedStored_def txn_Delete_def twoOfOneHash_def)
  ultimately show
    "AddBlock markerDeletingStorage sameHashBlock (unmarkedStored, ()) = (None, twoOfOneHash, ())"
    by (cases "AddBlock markerDeletingStorage sameHashBlock (unmarkedStored, ())") simp
qed

text \<open>
  C3, as the code has it. In a database that \<open>AddBlock\<close> and \<open>RemoveBlock\<close> have
  produced from the empty one, with workers that keep the block index, when a block of
  some hash is stored, \<open>AddBlock\<close> of any block of that hash fails with
  \<open>ErrDuplicateBlockHash\<close> and leaves the database and the outside world unchanged; and
  the stored block is the only stored block of its hash.
\<close>

theorem duplicate_block_hash_rejected:
  assumes "list_all keepsBlockIndex (workers b)"
    and "reachable b db"
    and "db (getBlockKey stored) \<noteq> None"
    and "Hash (BlockIdentifier block) = Hash stored"
  shows "(\<exists>err. AddBlock b block (db, world) = (Some err, db, world)
            \<and> errors_Is err ErrDuplicateBlockHash)
       \<and> (\<forall>other. db (getBlockKey other) \<noteq> None \<and> Hash other = Hash stored \<longrightarrow> other = stored)"
proof -
  from assms(1,2) have inv: "blockIndexInvariant db" by (rule reachable_blockIndexInvariant)
  with assms(3) have "db (getBlockHashKey stored) \<noteq> None"
    unfolding blockIndexInvariant_def by blast
  with assms(4) have "db (getBlockHashKey (BlockIdentifier block)) \<noteq> None"
    by (simp add: getBlockHashKey_def)
  then have "AddBlock_staged db block =
           Inl (Wrap (Wrap ErrDuplicateBlockHash ''%w: duplicate block hash %s found'')
                  ''%w: unable to store block hash'')"
    by (rule AddBlock_staged_duplicate_hash)
  then have "\<exists>err. AddBlock b block (db, world) = (Some err, db, world)
            \<and> errors_Is err ErrDuplicateBlockHash"
    by (simp add: AddBlock_unfold)
  moreover have "\<forall>other. db (getBlockKey other) \<noteq> None \<and> Hash other = Hash stored
                   \<longrightarrow> other = stored"
    using inv assms(3) unfolding blockIndexInvariant_def by blast
  ultimately show ?thesis by blast
qed

theorem duplicate_block_hash_rejected_witness:
  "reachable exampleStorage plainBlock4Stored
   \<and> plainBlock4Stored (getBlockKey \<lparr>Hash = ''blah 4'', Index = 4\<rparr>) \<noteq> None
   \<and> (\<exists>err. AddBlock exampleStorage duplicateTxBlock (plainBlock4Stored, ())
               = (Some err, plainBlock4Stored, ())
            \<and> errors_Is err ErrDuplicateBlockHash)"
proof -
  have "AddBlock exampleStorage plainBlock4 (Map.empty, ()) = (None, plainBlock4Stored, ())"
    by (simp add: run_defs key_defs exampleStorage_def plainBlock4_def plainBlock4Stored_def)
  with reachable_empty have r: "reachable exampleStorage plainBlock4Stored"
    by (rule reachable_AddBlock)
  have w: "list_all keepsBlockIndex (workers exampleStorage)"
    by (simp add: exampleStorage_def)
  have s: "plainBlock4Stored (getBlockKey \<lparr>Hash = ''blah 4'', Index = 4\<rparr>) \<noteq> None"
    by (simp add: key_defs plainBlock4Stored_def)
  have h: "Hash (BlockIdentifier duplicateTxBlock) = Hash \<lparr>Hash = ''blah 4'', Index = 4\<rparr>"
    by (simp add: duplicateTxBlock_def)
  from duplicate_block_hash_rejected [OF w r s h, of "()"] r s show ?thesis by simp
qed

theorem duplicate_block_hash_rejected_counterexample:
  "AddBlock markerDeletingStorage plainBlock4 (emptyDatabase, ()) = (None, unmarkedStored, ())
   \<and> unmarkedStored (getBlockKey (BlockIdentifier plainBlock4)) = Some (EncBlock plainBlock4)
   \<and> Hash (BlockIdentifier sameHashBlock) = Hash (BlockIdentifier plainBlock4)
   \<and> AddBlock markerDeletingStorage sameHashBlock (unmarkedStored, ()) = (None, twoOfOneHash, ())
   \<and> twoOfOneHash (getBlockKey (BlockIdentifier plainBlock4)) = Some (EncBlock plainBlock4)
   \<and> twoOfOneHash (getBlockKey (BlockIdentifier sameHashBlock)) = Some (EncBlock sameHashBlock)
   \<and> BlockIdentifier sameHashBlock \<noteq> BlockIdentifier plainBlock4"
  using example_marker_deleted
  by (simp add: key_defs unmarkedStored_def twoOfOneHash_def plainBlock4_def sameHashBlock_def)

subsection \<open>Setting a new start index\<close>

lemma removalWalk_indices:
  assumes "list_all keepsBlockIndex (workers b)"
    and "removalWalk b startIndex currBlock st removals final res"
    and "reachable b (fst st)"
  shows "(\<forall>blockIdentifier \<in> set removals. startIndex \<le>s Index blockIdentifier)
       \<and> (fst res = None \<longleftrightarrow> Index final <s startIndex)"
  using assms(2,3)
proof (induction rule: removalWalk.induct)
  case (walk_below currBlock st)
  then show ?case by simp
next
  case (walk_missing currBlock st err)
  then show ?case by simp
next
  case (walk_failed currBlock st block err st')
  from assms(1) walk_failed.prems have "blockIndexInvariant (fst st)"
    by (rule reachable_blockIndexInvariant)
  from this walk_failed.hyps(2) have "BlockIdentifier block = currBlock"
    by (rule GetBlock_own)
  with walk_failed.hyps(1) show ?case by (simp add: signed.not_less)
next
  case (walk_removed currBlock st block st' removals final res)
  obtain db world where st: "st = (db, world)" by (cases st)
  obtain db' world' where st': "st' = (db', world')" by (cases st')
  from walk_removed.prems st have r: "reachable b db" by simp
  from r walk_removed.hyps(3) [unfolded st st'] have "reachable b db'"
    by (rule reachable_RemoveBlock)
  then have "reachable b (fst st')" by (simp add: st')
  then have IH: "(\<forall>blockIdentifier \<in> set removals. startIndex \<le>s Index blockIdentifier)
       \<and> (fst res = None \<longleftrightarrow> Index final <s startIndex)"
    by (rule walk_removed.IH)
  from assms(1) r have "blockIndexInvariant db" by (rule reachable_blockIndexInvariant)
  from this walk_removed.hyps(2) [unfolded st] have "BlockIdentifier block = currBlock"
    by (simp add: GetBlock_own)
  with walk_removed.hyps(1) have "startIndex \<le>s Index (BlockIdentifier block)"
    by (simp add: signed.not_less)
  with IH show ?case by simp
qed

lemma setNewStartIndexLoop_removalWalk:
  assumes "setNewStartIndexLoop b startIndex currBlock st = Some res"
  shows "\<exists>removals final. removalWalk b startIndex currBlock st removals final res"
proof (rule setNewStartIndexLoop.raw_induct
               [where P = "\<lambda>b startIndex currBlock st res.
                             \<exists>removals final. removalWalk b startIndex currBlock st removals final res",
                OF _ assms], goal_cases)
  case (1 loop b startIndex currBlock st res)
  note IH = "1"(1) and body = "1"(2)
  show ?case
  proof (cases "Index currBlock <s startIndex")
    case True
    then have "\<not> startIndex \<le>s Index currBlock" by (simp add: signed.not_le)
    with body have "res = (None, st)" by simp
    with True show ?thesis by (auto intro: walk_below)
  next
    case False
    then have guard: "startIndex \<le>s Index currBlock" by (simp add: signed.not_less)
    show ?thesis
    proof (cases "GetBlock (fst st) currBlock")
      case (Inl err)
      with body guard have "res = (Some err, st)" by simp
      with False Inl show ?thesis by (auto intro: walk_missing)
    next
      case (Inr block)
      obtain r st' where rm: "RemoveBlock b (BlockIdentifier block) st = (r, st')"
        by (cases "RemoveBlock b (BlockIdentifier block) st")
      show ?thesis
      proof (cases r)
        case (Some err)
        with body guard Inr rm have "res = (Some err, st')" by simp
        with False Inr rm Some show ?thesis by (auto intro: walk_failed)
      next
        case None
        with body guard Inr rm have
          "loop b startIndex (ParentBlockIdentifier block) st' = Some res"
          by simp
        from IH [OF this] obtain removals final where
          "removalWalk b startIndex (ParentBlockIdentifier block) st' removals final res"
          by blast
        with False Inr rm None show ?thesis by (blast intro: walk_removed)
      qed
    qed
  qed
qed

lemma RemoveBlock_keeping_shrinks:
  assumes "list_all keepsBlockIndex (workers b)"
    and "RemoveBlock b blockIdentifier (db, world) = (None, db', world')"
  shows "{i. db' (getBlockKey i) \<noteq> None} \<subset> {i. db (getBlockKey i) \<noteq> None}"
proof -
  from RemoveBlock_block_keys [OF assms] have
    there: "db (getBlockKey blockIdentifier) \<noteq> None"
    and keys: "\<forall>i. db' (getBlockKey i) = (if i = blockIdentifier then None else db (getBlockKey i))"
    by simp_all
  from keys have "{i. db' (getBlockKey i) \<noteq> None} \<subseteq> {i. db (getBlockKey i) \<noteq> None}"
    by (auto split: if_splits)
  moreover from there have "blockIdentifier \<in> {i. db (getBlockKey i) \<noteq> None}" by simp
  moreover from keys have "blockIdentifier \<notin> {i. db' (getBlockKey i) \<noteq> None}" by simp
  ultimately show ?thesis by blast
qed

lemma setNewStartIndexLoop_returns:
  assumes "list_all keepsBlockIndex (workers b)" and "reachable b (fst st)"
  shows "\<exists>res. setNewStartIndexLoop b startIndex currBlock st = Some res"
  using assms(2)
proof (induction "card {i. fst st (getBlockKey i) \<noteq> None}" arbitrary: currBlock st
       rule: less_induct)
  case less
  show ?case
  proof (cases "startIndex \<le>s Index currBlock")
    case False
    then show ?thesis by (subst setNewStartIndexLoop.simps) simp
  next
    case guard: True
    show ?thesis
    proof (cases "GetBlock (fst st) currBlock")
      case (Inl err)
      with guard show ?thesis by (subst setNewStartIndexLoop.simps) simp
    next
      case (Inr block)
      obtain r db' world' where rm: "RemoveBlock b (BlockIdentifier block) st = (r, db', world')"
        by (cases "RemoveBlock b (BlockIdentifier block) st")
      show ?thesis
      proof (cases r)
        case (Some err)
        with guard Inr rm show ?thesis by (subst setNewStartIndexLoop.simps) simp
      next
        case None
        obtain db world where st: "st = (db, world)" by (cases st)
        from less.prems st have r: "reachable b db" by simp
        from rm None st have
          rm': "RemoveBlock b (BlockIdentifier block) (db, world) = (None, db', world')"
          by simp
        from assms(1) rm' have
          sub: "{i. db' (getBlockKey i) \<noteq> None} \<subset> {i. db (getBlockKey i) \<noteq> None}"
          by (rule RemoveBlock_keeping_shrinks)
        from assms(1) r have fin: "finite {i. db (getBlockKey i) \<noteq> None}"
          by (rule reachable_finite_blocks)
        from fin sub have
          "card {i. db' (getBlockKey i) \<noteq> None} < card {i. db (getBlockKey i) \<noteq> None}"
          by (rule psubset_card_mono)
        then have smaller: "card {i. fst (db', world') (getBlockKey i) \<noteq> None}
                     < card {i. fst st (getBlockKey i) \<noteq> None}"
          by (simp add: st)
        from r rm' have "reachable b db'" by (rule reachable_RemoveBlock)
        then have "reachable b (fst (db', world'))" by simp
        from less.hyps [OF smaller this] obtain res where
          "setNewStartIndexLoop b startIndex (ParentBlockIdentifier block) (db', world') = Some res"
          by blast
        with guard Inr rm None have "setNewStartIndexLoop b startIndex currBlock st = Some res"
          by (subst setNewStartIndexLoop.simps) simp
        then show ?thesis ..
      qed
    qed
  qed
qed

text \<open>
  C7, as the code has it. \<open>SetNewStartIndex\<close> returns \<^verbatim>\<open>nil\<close> without touching
  the database when there is no head block; it fails with the "last processed block is
  less than start index" error when the head's index is below the start index. With
  workers that keep the block index, in a database that \<open>AddBlock\<close> and \<open>RemoveBlock\<close>
  have produced from the empty one, the call returns; and when the head's index is not
  below the start index, its result is that of a walk from the head along the parent
  pointers that removes the block stored under the current identifier, one call of
  \<open>RemoveBlock\<close> per step, every identifier passed to \<open>RemoveBlock\<close> (so every
  removed block) having an index not below the start index; the walk ends with
  \<^verbatim>\<open>nil\<close> exactly when it reaches an identifier whose index is below the start
  index, and ends with the error when a block cannot be loaded or removed.
\<close>

theorem SetNewStartIndex_walk:
  "(fst st getHeadBlockKey = None \<longrightarrow> SetNewStartIndex b startIndex st = Some (None, st))
 \<and> (GetHeadBlockIdentifier (fst st) = Inr head \<and> Index head <s startIndex \<longrightarrow>
      SetNewStartIndex b startIndex st =
        Some (Some (Errorf ''last processed block %d is less than start index %d''), st))
 \<and> (list_all keepsBlockIndex (workers b) \<and> reachable b (fst st) \<longrightarrow>
      (\<exists>res. SetNewStartIndex b startIndex st = Some res
         \<and> (GetHeadBlockIdentifier (fst st) = Inr head \<and> \<not> Index head <s startIndex \<longrightarrow>
              (\<exists>removals final.
                 removalWalk b startIndex head st removals final res
                 \<and> (\<forall>blockIdentifier \<in> set removals. startIndex \<le>s Index blockIdentifier)
                 \<and> (fst res = None \<longleftrightarrow> Index final <s startIndex)))))"
proof (intro conjI impI)
  assume "fst st getHeadBlockKey = None"
  then show "SetNewStartIndex b startIndex st = Some (None, st)"
    by (simp add: SetNewStartIndex_def GetHeadBlockIdentifier_def txn_Get_def)
next
  assume "GetHeadBlockIdentifier (fst st) = Inr head \<and> Index head <s startIndex"
  then show "SetNewStartIndex b startIndex st =
        Some (Some (Errorf ''last processed block %d is less than start index %d''), st)"
    by (simp add: SetNewStartIndex_def)
next
  assume a: "list_all keepsBlockIndex (workers b) \<and> reachable b (fst st)"
  then have keep: "list_all keepsBlockIndex (workers b)" and r: "reachable b (fst st)"
    by simp_all
  have "\<exists>res. SetNewStartIndex b startIndex st = Some res"
  proof (cases "GetHeadBlockIdentifier (fst st)")
    case (Inl err)
    then show ?thesis by (simp add: SetNewStartIndex_def)
  next
    case (Inr h)
    with setNewStartIndexLoop_returns [OF keep r, of startIndex h] show ?thesis
      by (simp add: SetNewStartIndex_def)
  qed
  then obtain res where res: "SetNewStartIndex b startIndex st = Some res" ..
  have walk: "GetHeadBlockIdentifier (fst st) = Inr head \<and> \<not> Index head <s startIndex \<longrightarrow>
              (\<exists>removals final.
                 removalWalk b startIndex head st removals final res
                 \<and> (\<forall>blockIdentifier \<in> set removals. startIndex \<le>s Index blockIdentifier)
                 \<and> (fst res = None \<longleftrightarrow> Index final <s startIndex))"
  proof
    assume "GetHeadBlockIdentifier (fst st) = Inr head \<and> \<not> Index head <s startIndex"
    with res have "setNewStartIndexLoop b startIndex head st = Some res"
      by (auto simp: SetNewStartIndex_def)
    from setNewStartIndexLoop_removalWalk [OF this] obtain removals final where
      w: "removalWalk b startIndex head st removals final res"
      by blast
    from w removalWalk_indices [OF keep w r]
    have p: "removalWalk b startIndex head st removals final res
         \<and> (\<forall>blockIdentifier \<in> set removals. startIndex \<le>s Index blockIdentifier)
         \<and> (fst res = None \<longleftrightarrow> Index final <s startIndex)"
      by simp
    show "\<exists>removals final.
                 removalWalk b startIndex head st removals final res
                 \<and> (\<forall>blockIdentifier \<in> set removals. startIndex \<le>s Index blockIdentifier)
                 \<and> (fst res = None \<longleftrightarrow> Index final <s startIndex)"
      by (rule exI [of _ removals], rule exI [of _ final]) (rule p)
  qed
  from res walk show "\<exists>res. SetNewStartIndex b startIndex st = Some res
         \<and> (GetHeadBlockIdentifier (fst st) = Inr head \<and> \<not> Index head <s startIndex \<longrightarrow>
              (\<exists>removals final.
                 removalWalk b startIndex head st removals final res
                 \<and> (\<forall>blockIdentifier \<in> set removals. startIndex \<le>s Index blockIdentifier)
                 \<and> (fst res = None \<longleftrightarrow> Index final <s startIndex)))"
    by (intro exI [of _ res] conjI)
qed

subsection \<open>Runs on the example data\<close>

lemma example_AddBlock_newBlock:
  "AddBlock exampleStorage newBlock (Map.empty, ()) = (None, newBlockStored, ())"
  by (simp add: run_defs key_defs exampleStorage_def newBlock_def exampleTx_def
        newBlockStored_def)

lemma example_AddBlock_newBlock2:
  "AddBlock exampleStorage newBlock2 (newBlockStored, ()) = (None, newBlock2Stored, ())"
  by (simp add: run_defs key_defs exampleStorage_def newBlock2_def exampleTx_def
        newBlockStored_def newBlock2Stored_def)

lemma example_reachable_newBlockStored: "reachable exampleStorage newBlockStored"
  using reachable_empty example_AddBlock_newBlock by (rule reachable_AddBlock)

lemma example_reachable_newBlock2Stored: "reachable exampleStorage newBlock2Stored"
  using example_reachable_newBlockStored example_AddBlock_newBlock2 by (rule reachable_AddBlock)

lemma example_GetBlock:
  "GetBlock newBlock2Stored \<lparr>Hash = ''blah 2'', Index = 2\<rparr> = Inr newBlock2"
  "GetBlock newBlockStored \<lparr>Hash = ''blah 1'', Index = 1\<rparr> = Inr newBlock"
  "GetBlock bothRemoved \<lparr>Hash = ''blah 0'', Index = 0\<rparr> = Inl (Wrap ErrBlockNotFound ''%w %+v'')"
  by (simp_all add: GetBlock_def txn_Get_def key_defs newBlock2Stored_def newBlockStored_def
        bothRemoved_def)

lemma example_RemoveBlock_newBlock2:
  "RemoveBlock exampleStorage \<lparr>Hash = ''blah 2'', Index = 2\<rparr> (newBlock2Stored, ())
     = (None, newBlockStored, ())"
proof -
  have "RemoveBlock exampleStorage (BlockIdentifier newBlock2) (newBlock2Stored, ())
          = (None, newBlockStored, ())"
  proof (rule AddBlock_RemoveBlock_roundtrip [OF _ example_AddBlock_newBlock2])
    show "workers exampleStorage = []" by (simp add: exampleStorage_def)
    show "newBlockStored getHeadBlockKey
            = Some (EncBlockIdentifier (ParentBlockIdentifier newBlock2))"
      by (simp add: newBlockStored_def newBlock2_def key_defs)
    show "newBlockStored (getBlockKey (BlockIdentifier newBlock2)) = None"
      by (simp add: newBlockStored_def newBlock2_def key_defs)
    show "\<forall>t \<in> set (Transactions newBlock2).
            newBlockStored (getTransactionHashKey (TransactionIdentifier t)) \<noteq> Some (EncBlocks [])"
      by (simp add: newBlockStored_def newBlock2_def exampleTx_def key_defs)
    show "commitFault exampleStorage newBlockStored = None" by (simp add: exampleStorage_def)
  qed
  then show ?thesis by (simp add: newBlock2_def)
qed

lemma example_RemoveBlock_newBlock:
  "RemoveBlock exampleStorage \<lparr>Hash = ''blah 1'', Index = 1\<rparr> (newBlockStored, ())
     = (None, bothRemoved, ())"
proof -
  have "fst (snd (RemoveBlock exampleStorage \<lparr>Hash = ''blah 1'', Index = 1\<rparr> (newBlockStored, ())))
          = bothRemoved"
    by (rule ext)
       (simp add: run_defs key_defs exampleStorage_def newBlock_def exampleTx_def
          newBlockStored_def bothRemoved_def)
  moreover have "fst (RemoveBlock exampleStorage \<lparr>Hash = ''blah 1'', Index = 1\<rparr> (newBlockStored, ()))
          = None"
    by (simp add: run_defs key_defs exampleStorage_def newBlock_def exampleTx_def
          newBlockStored_def)
  ultimately show ?thesis
    by (cases "RemoveBlock exampleStorage \<lparr>Hash = ''blah 1'', Index = 1\<rparr> (newBlockStored, ())")
       simp
qed

lemma example_heads:
  "GetHeadBlockIdentifier newBlock2Stored = Inr \<lparr>Hash = ''blah 2'', Index = 2\<rparr>"
  "GetHeadBlockIdentifier Map.empty = Inl ErrHeadBlockNotFound"
  by (simp_all add: GetHeadBlockIdentifier_def txn_Get_def key_defs newBlock2Stored_def
        newBlockStored_def)

lemma example_loop_from_blah0:
  "setNewStartIndexLoop exampleStorage 0 \<lparr>Hash = ''blah 0'', Index = 0\<rparr> (bothRemoved, ())
     = Some (Some (Wrap ErrBlockNotFound ''%w %+v''), bothRemoved, ())"
  by (subst setNewStartIndexLoop.simps) (simp add: example_GetBlock)

lemma example_loop_from_blah1:
  "setNewStartIndexLoop exampleStorage 0 \<lparr>Hash = ''blah 1'', Index = 1\<rparr> (newBlockStored, ())
     = Some (Some (Wrap ErrBlockNotFound ''%w %+v''), bothRemoved, ())"
  by (subst setNewStartIndexLoop.simps)
     (simp add: example_GetBlock example_RemoveBlock_newBlock example_loop_from_blah0
        newBlock_def word_sle_eq)

lemma example_loop_from_blah2:
  "setNewStartIndexLoop exampleStorage 0 \<lparr>Hash = ''blah 2'', Index = 2\<rparr> (newBlock2Stored, ())
     = Some (Some (Wrap ErrBlockNotFound ''%w %+v''), bothRemoved, ())"
  by (subst setNewStartIndexLoop.simps)
     (simp add: example_GetBlock example_RemoveBlock_newBlock2 example_loop_from_blah1
        newBlock2_def word_sle_eq)

lemma example_loop_stops:
  "setNewStartIndexLoop exampleStorage 2 \<lparr>Hash = ''blah 2'', Index = 2\<rparr> (newBlock2Stored, ())
     = Some (None, newBlockStored, ())"
proof -
  have "setNewStartIndexLoop exampleStorage 2 \<lparr>Hash = ''blah 1'', Index = 1\<rparr> (newBlockStored, ())
          = Some (None, newBlockStored, ())"
    by (subst setNewStartIndexLoop.simps) (simp add: word_sle_eq)
  then show ?thesis
    by (subst setNewStartIndexLoop.simps)
       (simp add: example_GetBlock example_RemoveBlock_newBlock2 newBlock2_def word_sle_eq)
qed

theorem SetNewStartIndex_walk_witness:
  "SetNewStartIndex exampleStorage 2 (Map.empty, ()) = Some (None, Map.empty, ())
   \<and> SetNewStartIndex exampleStorage 3 (newBlock2Stored, ())
       = Some (Some (Errorf ''last processed block %d is less than start index %d''),
               newBlock2Stored, ())
   \<and> SetNewStartIndex exampleStorage 2 (newBlock2Stored, ()) = Some (None, newBlockStored, ())
   \<and> (\<exists>removals final.
         removalWalk exampleStorage 2 \<lparr>Hash = ''blah 2'', Index = 2\<rparr> (newBlock2Stored, ())
           removals final (None, newBlockStored, ())
         \<and> (\<forall>blockIdentifier \<in> set removals. 2 \<le>s Index blockIdentifier)
         \<and> Index final <s 2)"
proof -
  have run: "SetNewStartIndex exampleStorage 2 (newBlock2Stored, ()) = Some (None, newBlockStored, ())"
    by (simp add: SetNewStartIndex_def example_heads example_loop_stops word_sless_alt)
  have keep: "list_all keepsBlockIndex (workers exampleStorage)"
    by (simp add: exampleStorage_def)
  have r: "reachable exampleStorage (fst (newBlock2Stored, ()))"
    using example_reachable_newBlock2Stored by simp
  have 1: "SetNewStartIndex exampleStorage 2 (Map.empty, ()) = Some (None, Map.empty, ())"
    using SetNewStartIndex_walk [of "(Map.empty, ())" exampleStorage 2] by simp
  have 2: "SetNewStartIndex exampleStorage 3 (newBlock2Stored, ())
       = Some (Some (Errorf ''last processed block %d is less than start index %d''),
               newBlock2Stored, ())"
    using SetNewStartIndex_walk
            [of "(newBlock2Stored, ())" exampleStorage 3 "\<lparr>Hash = ''blah 2'', Index = 2\<rparr>"]
    by (simp add: example_heads word_sless_alt)
  have 3: "\<exists>removals final.
         removalWalk exampleStorage 2 \<lparr>Hash = ''blah 2'', Index = 2\<rparr> (newBlock2Stored, ())
           removals final (None, newBlockStored, ())
         \<and> (\<forall>blockIdentifier \<in> set removals. 2 \<le>s Index blockIdentifier)
         \<and> Index final <s 2"
    using SetNewStartIndex_walk
            [of "(newBlock2Stored, ())" exampleStorage 2 "\<lparr>Hash = ''blah 2'', Index = 2\<rparr>"]
          run keep r
    by (simp add: example_heads word_sless_alt)
  from 1 2 run 3 show ?thesis by simp
qed

theorem SetNewStartIndex_walk_counterexample:
  "GetHeadBlockIdentifier newBlock2Stored = Inr (BlockIdentifier newBlock2)
   \<and> \<not> Index (BlockIdentifier newBlock2) <s 0
   \<and> SetNewStartIndex exampleStorage 0 (newBlock2Stored, ())
       = Some (Some (Wrap ErrBlockNotFound ''%w %+v''), bothRemoved, ())
   \<and> GetHeadBlockIdentifier bothRemoved = Inr (ParentBlockIdentifier newBlock)
   \<and> \<not> Index (ParentBlockIdentifier newBlock) <s 0"
proof -
  have "SetNewStartIndex exampleStorage 0 (newBlock2Stored, ())
       = Some (Some (Wrap ErrBlockNotFound ''%w %+v''), bothRemoved, ())"
    by (simp add: SetNewStartIndex_def example_heads example_loop_from_blah2 word_sless_alt)
  moreover have "GetHeadBlockIdentifier bothRemoved = Inr (ParentBlockIdentifier newBlock)"
    by (simp add: GetHeadBlockIdentifier_def txn_Get_def key_defs bothRemoved_def newBlock_def)
  ultimately show ?thesis
    by (simp add: example_heads newBlock2_def newBlock_def word_sless_alt)
qed

subsection \<open>The block cache\<close>








subsection \<open>The coin storage as a worker\<close>

lemma coin_keys_distinct [simp]:
  "getCoinKey identifier \<noteq> getBlockKey blockIdentifier"
  "getCoinKey identifier \<noteq> getBlockHashKey blockIdentifier"
  "getCoinKey identifier \<noteq> getTransactionHashKey transactionIdentifier"
  "getCoinAccountKey c accountIdentifier \<noteq> getBlockKey blockIdentifier"
  "getCoinAccountKey c accountIdentifier \<noteq> getBlockHashKey blockIdentifier"
  "getCoinAccountKey c accountIdentifier \<noteq> getTransactionHashKey transactionIdentifier"
  "getBlockKey blockIdentifier \<noteq> getCoinKey identifier"
  "getBlockHashKey blockIdentifier \<noteq> getCoinKey identifier"
  "getTransactionHashKey transactionIdentifier \<noteq> getCoinKey identifier"
  "getBlockKey blockIdentifier \<noteq> getCoinAccountKey c accountIdentifier"
  "getBlockHashKey blockIdentifier \<noteq> getCoinAccountKey c accountIdentifier"
  "getTransactionHashKey transactionIdentifier \<noteq> getCoinAccountKey c accountIdentifier"
  by (simp_all add: getCoinKey_def getCoinAccountKey_def coinNamespace_def
        coinAccountNamespace_def getBlockKey_def getBlockHashKey_def getTransactionHashKey_def
        blockNamespace_def blockHashNamespace_def transactionHashNamespace_def)

lemma sameBlockIndex_coin_writes:
  "sameBlockIndex (txn(getCoinKey identifier := v)) txn"
  "sameBlockIndex (txn(getCoinAccountKey c accountIdentifier := v)) txn"
  "sameBlockIndex (txn(getCoinKey identifier := v, getCoinAccountKey c accountIdentifier := u)) txn"
  by (simp_all add: sameBlockIndex_def)

lemma tryAddingCoin_sameBlockIndex:
  assumes "tryAddingCoin c txn blockTransaction operation identiferKey = Inr txn'"
  shows "sameBlockIndex txn' txn"
  using assms
  by (auto simp: tryAddingCoin_def encodeAndSetCoins_def txn_Set_def Let_def
                 sameBlockIndex_coin_writes
           split: option.splits MetadataValue.splits sum.splits if_splits)

lemma tryRemovingCoin_sameBlockIndex:
  assumes "tryRemovingCoin c txn operation identiferKey = Inr txn'"
  shows "sameBlockIndex txn' txn"
  using assms
  by (auto simp: tryRemovingCoin_def encodeAndSetCoins_def txn_Set_def txn_Delete_def txn_Get_def
                 Let_def sameBlockIndex_coin_writes
           split: option.splits MetadataValue.splits sum.splits if_splits)

lemma coinOperation_sameBlockIndex:
  assumes "coinOperation c createdKey spentKey blockTransaction txn operation = Inr txn'"
  shows "sameBlockIndex txn' txn"
proof (cases "txn' = txn")
  case True
  then show ?thesis by simp
next
  case False
  with assms obtain txn1 where
    "tryAddingCoin c txn blockTransaction operation createdKey = Inr txn1"
    and "tryRemovingCoin c txn1 operation spentKey = Inr txn'"
    by (auto simp: coinOperation_def split: sum.splits if_splits)
  then have "sameBlockIndex txn1 txn" and "sameBlockIndex txn' txn1"
    by (auto dest: tryAddingCoin_sameBlockIndex tryRemovingCoin_sameBlockIndex)
  then show ?thesis by (metis sameBlockIndex_trans)
qed

lemma coinOperations_sameBlockIndex:
  assumes "coinOperations c createdKey spentKey blockTransaction txn operations = Inr txn'"
  shows "sameBlockIndex txn' txn"
  using assms
proof (induction operations arbitrary: txn)
  case Nil
  then show ?case by simp
next
  case (Cons operation operations)
  from Cons.prems obtain txn1 where
    s1: "coinOperation c createdKey spentKey blockTransaction txn operation = Inr txn1"
    and s2: "coinOperations c createdKey spentKey blockTransaction txn1 operations = Inr txn'"
    by (auto split: sum.splits)
  from Cons.IH [OF s2] coinOperation_sameBlockIndex [OF s1] show ?case
    by (rule sameBlockIndex_trans)
qed

lemma coinTransactions_sameBlockIndex:
  assumes "coinTransactions c createdKey spentKey txn txns = Inr txn'"
  shows "sameBlockIndex txn' txn"
  using assms
proof (induction txns arbitrary: txn)
  case Nil
  then show ?case by simp
next
  case (Cons t ts)
  from Cons.prems obtain txn1 where
    s1: "coinOperations c createdKey spentKey t txn (Operations t) = Inr txn1"
    and s2: "coinTransactions c createdKey spentKey txn1 ts = Inr txn'"
    by (auto split: sum.splits)
  from Cons.IH [OF s2] coinOperations_sameBlockIndex [OF s1] show ?case
    by (rule sameBlockIndex_trans)
qed

text \<open>The coin storage keeps the block index: it writes coin and coin-account keys only.\<close>

lemma CoinStorage_worker_keepsBlockIndex: "keepsBlockIndex (CoinStorage_worker c)"
  unfolding keepsBlockIndex_def
  by (auto simp: CoinStorage_worker_def CoinStorage_AddingBlock_def CoinStorage_RemovingBlock_def
           dest: coinTransactions_sameBlockIndex split: sum.splits)

text \<open>A block all of whose operations are skipped leaves the transaction as it is.\<close>

lemma coinOperations_all_skipped:
  assumes "\<forall>operation \<in> set operations. \<exists>success.
             OperationSuccessful c operation = Inr success
             \<and> (\<not> success \<or> Amount operation = None)"
  shows "coinOperations c createdKey spentKey txn transaction operations = Inr transaction"
  using assms
  by (induction operations) (auto simp: coinOperation_skipped)

lemma CoinStorage_AddingBlock_all_skipped:
  assumes "\<forall>txn \<in> set (Transactions block). \<forall>operation \<in> set (Operations txn). \<exists>success.
             OperationSuccessful c operation = Inr success
             \<and> (\<not> success \<or> Amount operation = None)"
  shows "CoinStorage_AddingBlock c block transaction = Inr (transaction, None)"
proof -
  have "coinTransactions c coinCreated coinSpent transaction txns = Inr transaction"
    if "set txns \<subseteq> set (Transactions block)" for txns
    using that
  proof (induction txns)
    case Nil
    show ?case by simp
  next
    case (Cons t ts)
    with assms have "coinOperations c coinCreated coinSpent t transaction (Operations t)
                       = Inr transaction"
      by (intro coinOperations_all_skipped) auto
    with Cons show ?case by simp
  qed
  then show ?thesis by (simp add: CoinStorage_AddingBlock_def)
qed

lemmas coin_defs = CoinStorage_worker_def CoinStorage_AddingBlock_def
  CoinStorage_RemovingBlock_def coinOperation_def tryAddingCoin_def tryRemovingCoin_def
  getAndDecodeCoins_def encodeAndSetCoins_def getCoinKey_def getCoinAccountKey_def
  coinNamespace_def coinAccountNamespace_def coinCreated_def coinSpent_def

text \<open>
  With the coin storage registered, removing a block does not undo its addition exactly:
  the coin that the block spent comes back as a record of the spending transaction and
  operation, not of the ones that created it.
\<close>

lemma example_coin_worker_not_inverse:
  "fst (AddBlock coinWorkerStorage creatingBlock (Map.empty, ())) = None
   \<and> fst (snd (AddBlock coinWorkerStorage creatingBlock (Map.empty, ()))) (getCoinKey ''c1'')
       = Some (EncCoin \<lparr>Identifier = ''c1'', CoinTransaction = creatingTx,
                        CoinOperation = creatingOperation\<rparr>)
   \<and> fst (AddBlock coinWorkerStorage spendingBlock
            (snd (AddBlock coinWorkerStorage creatingBlock (Map.empty, ())))) = None
   \<and> fst (RemoveBlock coinWorkerStorage (BlockIdentifier spendingBlock)
            (snd (AddBlock coinWorkerStorage spendingBlock
                    (snd (AddBlock coinWorkerStorage creatingBlock (Map.empty, ())))))) = None
   \<and> fst (snd (RemoveBlock coinWorkerStorage (BlockIdentifier spendingBlock)
                 (snd (AddBlock coinWorkerStorage spendingBlock
                         (snd (AddBlock coinWorkerStorage creatingBlock (Map.empty, ())))))))
         (getCoinKey ''c1'')
       = Some (EncCoin \<lparr>Identifier = ''c1'', CoinTransaction = spendingTx,
                        CoinOperation = spendingOperation\<rparr>)"
  by (simp add: run_defs key_defs coin_defs coinWorkerStorage_def exampleCoinStorage_def
        exampleAccount_def creatingBlock_def spendingBlock_def creatingTx_def spendingTx_def
        creatingOperation_def spendingOperation_def)

subsection \<open>Adding a block and removing it again, with workers\<close>

lemma head_coin_keys_distinct [simp]:
  "getCoinKey identifier \<noteq> getHeadBlockKey"
  "getCoinAccountKey c accountIdentifier \<noteq> getHeadBlockKey"
  "getHeadBlockKey \<noteq> getCoinKey identifier"
  "getHeadBlockKey \<noteq> getCoinAccountKey c accountIdentifier"
  by (simp_all add: getCoinKey_def getCoinAccountKey_def coinNamespace_def
        coinAccountNamespace_def getHeadBlockKey_def headBlockKey_def)

lemma tryAddingCoin_head:
  assumes "tryAddingCoin c txn blockTransaction operation identiferKey = Inr txn'"
  shows "txn' getHeadBlockKey = txn getHeadBlockKey"
  using assms
  by (auto simp: tryAddingCoin_def encodeAndSetCoins_def txn_Set_def Let_def
           split: option.splits MetadataValue.splits sum.splits if_splits)

lemma tryRemovingCoin_head:
  assumes "tryRemovingCoin c txn operation identiferKey = Inr txn'"
  shows "txn' getHeadBlockKey = txn getHeadBlockKey"
  using assms
  by (auto simp: tryRemovingCoin_def encodeAndSetCoins_def txn_Set_def txn_Delete_def txn_Get_def
                 Let_def
           split: option.splits MetadataValue.splits sum.splits if_splits)

lemma coinOperation_head:
  assumes "coinOperation c createdKey spentKey blockTransaction txn operation = Inr txn'"
  shows "txn' getHeadBlockKey = txn getHeadBlockKey"
proof (cases "txn' = txn")
  case True
  then show ?thesis by simp
next
  case False
  with assms obtain txn1 where
    a: "tryAddingCoin c txn blockTransaction operation createdKey = Inr txn1"
    and r: "tryRemovingCoin c txn1 operation spentKey = Inr txn'"
    by (auto simp: coinOperation_def split: sum.splits if_splits)
  from tryAddingCoin_head [OF a] tryRemovingCoin_head [OF r] show ?thesis by simp
qed

lemma coinOperations_head:
  assumes "coinOperations c createdKey spentKey blockTransaction txn operations = Inr txn'"
  shows "txn' getHeadBlockKey = txn getHeadBlockKey"
  using assms
proof (induction operations arbitrary: txn)
  case Nil
  then show ?case by simp
next
  case (Cons operation operations)
  from Cons.prems obtain txn1 where
    s1: "coinOperation c createdKey spentKey blockTransaction txn operation = Inr txn1"
    and s2: "coinOperations c createdKey spentKey blockTransaction txn1 operations = Inr txn'"
    by (auto split: sum.splits)
  from Cons.IH [OF s2] coinOperation_head [OF s1] show ?case by simp
qed

lemma coinTransactions_head:
  assumes "coinTransactions c createdKey spentKey txn txns = Inr txn'"
  shows "txn' getHeadBlockKey = txn getHeadBlockKey"
  using assms
proof (induction txns arbitrary: txn)
  case Nil
  then show ?case by simp
next
  case (Cons t ts)
  from Cons.prems obtain txn1 where
    s1: "coinOperations c createdKey spentKey t txn (Operations t) = Inr txn1"
    and s2: "coinTransactions c createdKey spentKey txn1 ts = Inr txn'"
    by (auto split: sum.splits)
  from Cons.IH [OF s2] coinOperations_head [OF s1] show ?case by simp
qed

lemma CoinStorage_worker_keepsHeadBlock: "keepsHeadBlock (CoinStorage_worker c)"
  unfolding keepsHeadBlock_def
  by (auto simp: CoinStorage_worker_def CoinStorage_AddingBlock_def CoinStorage_RemovingBlock_def
           dest: coinTransactions_head split: sum.splits)

lemma example_coin_creating_roundtrip:
  "fst (AddBlock coinWorkerStorage creatingBlock (emptyDatabase, ())) = None"
  "fst (RemoveBlock coinWorkerStorage (BlockIdentifier creatingBlock)
          (snd (AddBlock coinWorkerStorage creatingBlock (emptyDatabase, ())))) = None"
  "fst (snd (RemoveBlock coinWorkerStorage (BlockIdentifier creatingBlock)
               (snd (AddBlock coinWorkerStorage creatingBlock (emptyDatabase, ())))))
     (getCoinAccountKey exampleCoinStorage exampleAccount) = Some (EncCoins [])"
  "emptyDatabase (getCoinAccountKey exampleCoinStorage exampleAccount) = None"
  by (simp_all add: run_defs key_defs coin_defs coinWorkerStorage_def exampleCoinStorage_def
        exampleAccount_def creatingBlock_def creatingTx_def creatingOperation_def
        emptyDatabase_def)

lemma AddBlock_staged_other_keys:
  assumes "AddBlock_staged db block = Inr txn"
    and "key \<noteq> getHeadBlockKey"
    and "\<forall>i. key \<noteq> getBlockKey i \<and> key \<noteq> getBlockHashKey i"
    and "\<forall>t. key \<noteq> getTransactionHashKey t"
  shows "txn key = db key"
proof -
  from AddBlock_staged_Inr [OF assms(1)] have
    stored: "storeTransactionHashes
               (db(getBlockKey (BlockIdentifier block) \<mapsto> EncBlock block,
                   getHeadBlockKey \<mapsto> EncBlockIdentifier (BlockIdentifier block),
                   getBlockHashKey (BlockIdentifier block) \<mapsto> EncEmpty))
               (BlockIdentifier block) (Transactions block) = Inr txn"
    by simp
  from assms(4) have "\<And>t. key \<noteq> getTransactionHashKey t" by simp
  with stored have "txn key =
      (db(getBlockKey (BlockIdentifier block) \<mapsto> EncBlock block,
          getHeadBlockKey \<mapsto> EncBlockIdentifier (BlockIdentifier block),
          getBlockHashKey (BlockIdentifier block) \<mapsto> EncEmpty)) key"
    by (rule storeTransactionHashes_frame)
  with assms(2,3) show ?thesis by simp
qed

text \<open>
  C1, as the code has it. With workers that keep the block index, in a database that
  \<open>AddBlock\<close> and \<open>RemoveBlock\<close> have produced from the empty one, when \<open>AddBlock\<close>
  of a block succeeds, the steps of \<open>RemoveBlock\<close> of its identifier that come before
  the workers succeed, and they stage a transaction in which every block record, every
  block-hash marker and every reverse-index mapping is as it was before the block was
  added, and in which the head is the block's parent. The call then either fails in a
  worker or in the commit, returns that error and leaves the database and the outside
  world as they are, or it commits a database in which every block record, block-hash
  marker and reverse-index mapping is as it was before the block was added, and whose
  head is the block's parent where the workers keep the head. Without workers, when the
  engine commits, \<open>RemoveBlock\<close> succeeds and gives back the database as it was before
  the block was added in every key and every value but the head, which is the block's
  parent: exactly the database before, when its head was the block's parent.
\<close>

theorem AddBlock_RemoveBlock_restores:
  assumes "list_all keepsBlockIndex (workers b)"
    and "reachable b db"
    and "AddBlock b block (db, world) = (None, db', world')"
  shows "\<exists>txn r db2 world2.
           RemoveBlock_staged db' (BlockIdentifier block) = Inr (block, txn)
         \<and> sameBlockIndex txn db
         \<and> txn getHeadBlockKey = Some (EncBlockIdentifier (ParentBlockIdentifier block))
         \<and> RemoveBlock b (BlockIdentifier block) (db', world') = (r, db2, world2)
         \<and> ((\<exists>err. r = Some err \<and> db2 = db' \<and> world2 = world'
                \<and> (callWorkers (workers b) False block txn = Inl err
                   \<or> (\<exists>txn' cws. callWorkers (workers b) False block txn = Inr (txn', cws)
                         \<and> commitFault b txn' = Some err)))
            \<or> (sameBlockIndex db2 db
               \<and> (list_all keepsHeadBlock (workers b) \<longrightarrow>
                    db2 getHeadBlockKey
                      = Some (EncBlockIdentifier (ParentBlockIdentifier block)))))
         \<and> (workers b = []
              \<and> commitFault b
                   (db(getHeadBlockKey \<mapsto> EncBlockIdentifier (ParentBlockIdentifier block)))
                 = None
            \<longrightarrow> r = None \<and> world2 = world'
                \<and> db2 = db(getHeadBlockKey \<mapsto> EncBlockIdentifier (ParentBlockIdentifier block)))"
proof -
  let ?id = "BlockIdentifier block"
  let ?parent = "EncBlockIdentifier (ParentBlockIdentifier block)"
  from assms(1,2) have inv: "blockIndexInvariant db" by (rule reachable_blockIndexInvariant)
  from RemoveBlock_staged_after_AddBlock [OF assms(1) inv assms(3)] obtain txn where
    staged: "RemoveBlock_staged db' ?id = Inr (block, txn)"
    and same: "sameBlockIndex txn db"
    and head: "txn getHeadBlockKey = Some ?parent"
    and others: "\<forall>key. key \<noteq> getHeadBlockKey
                       \<and> (\<forall>i. key \<noteq> getBlockKey i \<and> key \<noteq> getBlockHashKey i)
                       \<and> (\<forall>t. key \<noteq> getTransactionHashKey t) \<longrightarrow> txn key = db' key"
    by blast
  obtain r db2 world2 where
    run: "RemoveBlock b ?id (db', world') = (r, db2, world2)"
    by (cases "RemoveBlock b ?id (db', world')")
  with staged have
    call: "callWorkersAndCommit b block txn False (db', world') = (r, db2, world2)"
    by (simp add: RemoveBlock_unfold)
  from callWorkersAndCommit_outcome [OF call] consider
    "\<exists>err. r = Some err \<and> db2 = db' \<and> world2 = world'
                \<and> (callWorkers (workers b) False block txn = Inl err
                   \<or> (\<exists>txn' cws. callWorkers (workers b) False block txn = Inr (txn', cws)
                         \<and> commitFault b txn' = Some err))"
    | cws where "callWorkers (workers b) False block txn = Inr (db2, cws)"
    by blast
  then have outcome: "(\<exists>err. r = Some err \<and> db2 = db' \<and> world2 = world'
                \<and> (callWorkers (workers b) False block txn = Inl err
                   \<or> (\<exists>txn' cws. callWorkers (workers b) False block txn = Inr (txn', cws)
                         \<and> commitFault b txn' = Some err)))
            \<or> (sameBlockIndex db2 db
               \<and> (list_all keepsHeadBlock (workers b) \<longrightarrow> db2 getHeadBlockKey = Some ?parent))"
  proof cases
    case 1
    then show ?thesis by (rule disjI1)
  next
    case 2
    from callWorkers_keepsBlockIndex [OF assms(1) 2] same have "sameBlockIndex db2 db"
      by (rule sameBlockIndex_trans)
    moreover have "db2 getHeadBlockKey = Some ?parent" if "list_all keepsHeadBlock (workers b)"
      using callWorkers_keepsHeadBlock [OF that 2] head by simp
    ultimately show ?thesis by simp
  qed
  have exact: "r = None \<and> world2 = world' \<and> db2 = db(getHeadBlockKey \<mapsto> ?parent)"
    if "workers b = [] \<and> commitFault b (db(getHeadBlockKey \<mapsto> ?parent)) = None"
  proof -
    from that have nw: "workers b = []"
      and commit: "commitFault b (db(getHeadBlockKey \<mapsto> ?parent)) = None"
      by simp_all
    from assms(3) nw obtain ta where ta: "AddBlock_staged db block = Inr ta" and db': "db' = ta"
      by (auto simp: AddBlock_unfold callWorkersAndCommit_no_workers
               split: sum.splits option.splits)
    have "txn = db(getHeadBlockKey \<mapsto> ?parent)"
    proof
      fix key
      show "txn key = (db(getHeadBlockKey \<mapsto> ?parent)) key"
      proof (cases "key = getHeadBlockKey")
        case True
        with head show ?thesis by simp
      next
        case nohead: False
        show ?thesis
        proof (cases "(\<forall>i. key \<noteq> getBlockKey i \<and> key \<noteq> getBlockHashKey i)
                       \<and> (\<forall>t. key \<noteq> getTransactionHashKey t)")
          case True
          with nohead others have "txn key = db' key" by blast
          also from True nohead have "db' key = db key"
            unfolding db' by (intro AddBlock_staged_other_keys [OF ta]) simp_all
          finally show ?thesis using nohead by simp
        next
          case False
          with same have "txn key = db key" unfolding sameBlockIndex_def by metis
          with nohead show ?thesis by simp
        qed
      qed
    qed
    with call nw commit show ?thesis
      by (simp add: callWorkersAndCommit_no_workers)
  qed
  from staged same head run outcome exact show ?thesis by blast
qed

theorem AddBlock_RemoveBlock_restores_witness:
  "AddBlock exampleStorage newBlock2 (newBlockStored, ()) = (None, newBlock2Stored, ())
   \<and> RemoveBlock exampleStorage (BlockIdentifier newBlock2) (newBlock2Stored, ())
       = (None, newBlockStored, ())
   \<and> fst (AddBlock coinWorkerStorage creatingBlock (emptyDatabase, ())) = None
   \<and> fst (RemoveBlock coinWorkerStorage (BlockIdentifier creatingBlock)
            (snd (AddBlock coinWorkerStorage creatingBlock (emptyDatabase, ())))) = None
   \<and> sameBlockIndex
       (fst (snd (RemoveBlock coinWorkerStorage (BlockIdentifier creatingBlock)
                    (snd (AddBlock coinWorkerStorage creatingBlock (emptyDatabase, ()))))))
       emptyDatabase
   \<and> fst (snd (RemoveBlock coinWorkerStorage (BlockIdentifier creatingBlock)
                 (snd (AddBlock coinWorkerStorage creatingBlock (emptyDatabase, ())))))
         getHeadBlockKey
       = Some (EncBlockIdentifier (ParentBlockIdentifier creatingBlock))"
proof -
  have w: "list_all keepsBlockIndex (workers exampleStorage)"
    "list_all keepsHeadBlock (workers exampleStorage)"
    "workers exampleStorage = []"
    "commitFault exampleStorage
       (newBlockStored(getHeadBlockKey \<mapsto> EncBlockIdentifier (ParentBlockIdentifier newBlock2)))
       = None"
    by (simp_all add: exampleStorage_def)
  have "newBlockStored getHeadBlockKey
             = Some (EncBlockIdentifier (ParentBlockIdentifier newBlock2))"
    by (simp add: newBlockStored_def newBlock2_def key_defs)
  then have h: "newBlockStored(getHeadBlockKey \<mapsto>
                  EncBlockIdentifier (ParentBlockIdentifier newBlock2)) = newBlockStored"
    by (rule map_upd_triv)
  from AddBlock_RemoveBlock_restores
         [OF w(1) example_reachable_newBlockStored example_AddBlock_newBlock2] w(3,4)
  have 1: "RemoveBlock exampleStorage (BlockIdentifier newBlock2) (newBlock2Stored, ())
       = (None, newBlockStored, ())"
    unfolding h by auto
  have k: "list_all keepsBlockIndex (workers coinWorkerStorage)"
    "list_all keepsHeadBlock (workers coinWorkerStorage)"
    by (simp_all add: coinWorkerStorage_def CoinStorage_worker_keepsBlockIndex
          CoinStorage_worker_keepsHeadBlock)
  have e: "reachable coinWorkerStorage emptyDatabase"
    unfolding emptyDatabase_def by (rule reachable_empty)
  obtain db' where
    a: "AddBlock coinWorkerStorage creatingBlock (emptyDatabase, ()) = (None, db', ())"
    using example_coin_creating_roundtrip(1)
    by (cases "AddBlock coinWorkerStorage creatingBlock (emptyDatabase, ())") auto
  from AddBlock_RemoveBlock_restores [OF k(1) e a] k(2) example_coin_creating_roundtrip(2)
  have 2: "sameBlockIndex
       (fst (snd (RemoveBlock coinWorkerStorage (BlockIdentifier creatingBlock) (db', ()))))
       emptyDatabase
   \<and> fst (snd (RemoveBlock coinWorkerStorage (BlockIdentifier creatingBlock) (db', ())))
         getHeadBlockKey
       = Some (EncBlockIdentifier (ParentBlockIdentifier creatingBlock))"
    by (auto simp: a)
  from example_AddBlock_newBlock2 1 example_coin_creating_roundtrip(1,2) 2 show ?thesis
    by (simp add: a)
qed

theorem AddBlock_RemoveBlock_restores_counterexample:
  "AddBlock exampleStorage newBlock (emptyDatabase, ()) = (None, newBlockStored, ())
   \<and> fst (RemoveBlock exampleStorage (BlockIdentifier newBlock) (newBlockStored, ())) = None
   \<and> fst (snd (RemoveBlock exampleStorage (BlockIdentifier newBlock) (newBlockStored, ())))
         getHeadBlockKey
       = Some (EncBlockIdentifier (ParentBlockIdentifier newBlock))
   \<and> emptyDatabase getHeadBlockKey = None
   \<and> fst (AddBlock coinWorkerStorage creatingBlock (emptyDatabase, ())) = None
   \<and> fst (RemoveBlock coinWorkerStorage (BlockIdentifier creatingBlock)
            (snd (AddBlock coinWorkerStorage creatingBlock (emptyDatabase, ())))) = None
   \<and> fst (snd (RemoveBlock coinWorkerStorage (BlockIdentifier creatingBlock)
                 (snd (AddBlock coinWorkerStorage creatingBlock (emptyDatabase, ())))))
         (getCoinAccountKey exampleCoinStorage exampleAccount) = Some (EncCoins [])
   \<and> emptyDatabase (getCoinAccountKey exampleCoinStorage exampleAccount) = None"
proof -
  have "AddBlock exampleStorage newBlock (emptyDatabase, ()) = (None, newBlockStored, ())
   \<and> fst (RemoveBlock exampleStorage (BlockIdentifier newBlock) (newBlockStored, ())) = None
   \<and> fst (snd (RemoveBlock exampleStorage (BlockIdentifier newBlock) (newBlockStored, ())))
         getHeadBlockKey
       = Some (EncBlockIdentifier (ParentBlockIdentifier newBlock))
   \<and> emptyDatabase getHeadBlockKey = None"
    by (simp add: run_defs key_defs exampleStorage_def newBlock_def exampleTx_def
        newBlockStored_def emptyDatabase_def)
  with example_coin_creating_roundtrip show ?thesis by simp
qed

end
